theory Spec2Isabelle
  imports Complex_Main
begin

section \<open>Errors of the numerical pipeline\<close>

text \<open>
  The two scripts are straight-line NumPy code over floating-point arrays. The model
  works in exact arithmetic (\<open>real\<close>, \<open>complex\<close>). Where Python raises
  (an index out of range, a division by zero, an empty transform input, operands of
  different shapes) or NumPy produces an infinite or not-a-number entry, which no real
  number stands for (\<open>InvalidValue\<close>), or the circuit library refuses an input
  (\<open>QiskitError\<close>), the model returns an error value instead of the unspecified value
  HOL gives to \<open>x / 0\<close> and \<open>xs ! i\<close>.
\<close>

datatype error =
  IndexError | ZeroDivisionError | ValueError | InvalidValue | ShapeMismatch | QiskitError

section \<open>Initial field and its normalisation\<close>

text \<open>
  \<^verbatim>\<open>u_init_norm = np.sqrt(np.sum(np.square(u_init)))\<close>
\<close>

definition u_init_norm :: "real list \<Rightarrow> real" where
  "u_init_norm u_init = sqrt (sum_list (map (\<lambda>x. x\<^sup>2) u_init))"

text \<open>
  \<^verbatim>\<open>u0 = u_init / u_init_norm\<close>: dividing the entries of an array by the float zero
  gives not-a-number entries, recorded here as \<open>InvalidValue\<close>; an empty array has no
  entries and stays empty.
\<close>

definition u0 :: "real list \<Rightarrow> error + real list" where
  "u0 u_init =
     (if u_init \<noteq> [] \<and> u_init_norm u_init = 0 then Inl InvalidValue
      else Inr (map (\<lambda>x. x / u_init_norm u_init) u_init))"

subsection \<open>Unit norm of the normalised field\<close>

lemma sum_list_squares_nonneg: "0 \<le> (\<Sum>x\<leftarrow>xs. (x::real)\<^sup>2)"
  by (induction xs) auto

lemma sum_list_squares_pos:
  "\<exists>x\<in>set xs. x \<noteq> 0 \<Longrightarrow> 0 < (\<Sum>x\<leftarrow>xs. (x::real)\<^sup>2)"
proof (induction xs)
  case Nil
  then show ?case by simp
next
  case (Cons a xs)
  have nn: "0 \<le> (\<Sum>x\<leftarrow>xs. x\<^sup>2)"
    by (rule sum_list_squares_nonneg)
  show ?case
  proof (cases "a = 0")
    case True
    with Cons show ?thesis by simp
  next
    case False
    then have "0 < a\<^sup>2" by simp
    then have "0 < a\<^sup>2 + (\<Sum>x\<leftarrow>xs. x\<^sup>2)"
      using nn by (rule add_pos_nonneg)
    then show ?thesis by simp
  qed
qed

lemma sum_list_squares_scaled:
  "(\<Sum>x\<leftarrow>map (\<lambda>x. x / c) xs. (x::real)\<^sup>2) = (\<Sum>x\<leftarrow>xs. x\<^sup>2) / c\<^sup>2"
  by (induction xs) (auto simp: power_divide add_divide_distrib)

lemma scaled_by_root_unit:
  fixes xs :: "real list"
  assumes "0 < (\<Sum>x\<leftarrow>xs. x\<^sup>2)"
  shows "sqrt (\<Sum>x\<leftarrow>map (\<lambda>x. x / sqrt (\<Sum>x\<leftarrow>xs. x\<^sup>2)) xs. x\<^sup>2) = 1"
proof -
  let ?s = "\<Sum>x\<leftarrow>xs. x\<^sup>2"
  have sq: "(sqrt ?s)\<^sup>2 = ?s" using assms by simp
  have "sqrt (\<Sum>x\<leftarrow>map (\<lambda>x. x / sqrt ?s) xs. x\<^sup>2) = sqrt (?s / ?s)"
    unfolding sum_list_squares_scaled sq ..
  also have "\<dots> = 1" using assms by simp
  finally show ?thesis .
qed

lemma u0_norm_one:
  assumes "u0 u_init = Inr v" "u_init \<noteq> []"
  shows "u_init_norm v = 1"
proof -
  let ?s = "\<Sum>x\<leftarrow>u_init. x\<^sup>2"
  from assms have nz: "sqrt ?s \<noteq> 0"
    and v: "v = map (\<lambda>x. x / sqrt ?s) u_init"
    by (auto simp: u0_def u_init_norm_def split: if_splits)
  have "0 \<le> ?s" by (rule sum_list_squares_nonneg)
  with nz have pos: "0 < ?s" by (cases "?s = 0") simp_all
  show ?thesis
    unfolding v u_init_norm_def by (rule scaled_by_root_unit [OF pos])
qed

text \<open>
  Claim C8. For every initial field with at least one nonzero entry, the stored norm
  is the square root of the sum of the squared entries, the normalised field is the
  field divided entry by entry by that number, and the Euclidean norm of the result,
  \<open>sqrt (\<Sum>i. v\<^sub>i\<^sup>2)\<close>, is exactly 1.
\<close>

theorem u0_unit_norm:
  assumes "\<exists>x\<in>set u_init. x \<noteq> 0"
  shows "u_init_norm u_init = sqrt (\<Sum>x\<leftarrow>u_init. x\<^sup>2) \<and>
         u0 u_init = Inr (map (\<lambda>x. x / sqrt (\<Sum>x\<leftarrow>u_init. x\<^sup>2)) u_init) \<and>
         sqrt (\<Sum>x\<leftarrow>map (\<lambda>x. x / sqrt (\<Sum>x\<leftarrow>u_init. x\<^sup>2)) u_init. x\<^sup>2) = 1"
proof -
  have pos: "0 < (\<Sum>x\<leftarrow>u_init. x\<^sup>2)"
    using assms by (rule sum_list_squares_pos)
  have n: "u_init_norm u_init = sqrt (\<Sum>x\<leftarrow>u_init. x\<^sup>2)"
    by (simp add: u_init_norm_def)
  have "u_init_norm u_init \<noteq> 0" using pos by (simp add: n)
  then have "u0 u_init = Inr (map (\<lambda>x. x / sqrt (\<Sum>x\<leftarrow>u_init. x\<^sup>2)) u_init)"
    by (simp add: u0_def n)
  with n scaled_by_root_unit [OF pos] show ?thesis by simp
qed

theorem u0_unit_norm_witness:
  "(\<exists>x\<in>set [3, 4 :: real]. x \<noteq> 0) \<and>
   u_init_norm [3, 4] = 5 \<and> u0 [3, 4] = Inr [3 / 5, 4 / 5] \<and>
   sqrt (\<Sum>x\<leftarrow>[3 / 5, 4 / 5 :: real]. x\<^sup>2) = 1"
proof -
  have "sqrt (\<Sum>x\<leftarrow>[3, 4 :: real]. x\<^sup>2) = sqrt (5\<^sup>2)" by simp
  then have r: "sqrt (\<Sum>x\<leftarrow>[3, 4 :: real]. x\<^sup>2) = 5" by (simp only: real_sqrt_abs)
  show ?thesis
    using u0_unit_norm [of "[3, 4]"] unfolding r by simp
qed

section \<open>Finite-difference spatial operator\<close>

text \<open>
  Sequencing of steps that may fail: the first error ends the computation, as an
  uncaught exception ends the script.
\<close>

definition ebind :: "error + 'a \<Rightarrow> ('a \<Rightarrow> error + 'b) \<Rightarrow> error + 'b" where
  "ebind m f = (case m of Inl e \<Rightarrow> Inl e | Inr a \<Rightarrow> f a)"

text \<open>
  A two-dimensional array is a list of rows. \<open>zeros2\<close> is \<^verbatim>\<open>np.zeros((r, c))\<close>,
  \<open>eye\<close> is \<^verbatim>\<open>np.eye(n)\<close>.
\<close>

type_synonym 'a matrix = "'a list list"

definition zeros2 :: "nat \<Rightarrow> nat \<Rightarrow> real matrix" where
  "zeros2 r c = replicate r (replicate c 0)"

definition eye :: "nat \<Rightarrow> real matrix" where
  "eye n = map (\<lambda>i. map (\<lambda>j. if i = j then 1 else 0) [0..<n]) [0..<n]"

text \<open>
  Python indexing along one axis of length \<open>n\<close>: a negative index counts from the
  end, and an index outside \<open>-n .. n-1\<close> raises \<^verbatim>\<open>IndexError\<close>.
  \<open>setitem\<close> is the write \<^verbatim>\<open>A[i, j] = v\<close> for indices already known to be in
  range (the loop bodies below); \<open>setitem_py\<close> is the same write with Python's index
  rules (the two wrap-around writes \<^verbatim>\<open>A[0, -1]\<close> and \<^verbatim>\<open>A[-1, 0]\<close>).
\<close>

definition py_index :: "nat \<Rightarrow> int \<Rightarrow> error + nat" where
  "py_index n i =
     (let j = (if i < 0 then int n + i else i)
      in if 0 \<le> j \<and> j < int n then Inr (nat j) else Inl IndexError)"

definition setitem :: "'a matrix \<Rightarrow> nat \<Rightarrow> nat \<Rightarrow> 'a \<Rightarrow> 'a matrix" where
  "setitem A i j v = A[i := (A ! i)[j := v]]"

definition setitem_py :: "'a matrix \<Rightarrow> int \<Rightarrow> int \<Rightarrow> 'a \<Rightarrow> error + 'a matrix" where
  "setitem_py A i j v =
     ebind (py_index (length A) i) (\<lambda>a.
     ebind (py_index (length (A ! a)) j) (\<lambda>b.
     Inr (setitem A a b v)))"

text \<open>
  \<^verbatim>\<open>A * c / d\<close> entry by entry. Dividing by a zero float gives infinite or
  not-a-number entries, which have no real value: \<open>InvalidValue\<close>.
\<close>

definition scale_div :: "real matrix \<Rightarrow> real \<Rightarrow> real \<Rightarrow> error + real matrix" where
  "scale_div A c d =
     (if d = 0 then Inl InvalidValue else Inr (map (map (\<lambda>a. a * c / d)) A))"

definition mat_add :: "'a::plus matrix \<Rightarrow> 'a matrix \<Rightarrow> 'a matrix" where
  "mat_add A B = map2 (map2 (+)) A B"

definition mat_sub :: "'a::minus matrix \<Rightarrow> 'a matrix \<Rightarrow> 'a matrix" where
  "mat_sub A B = map2 (map2 (-)) A B"

text \<open>
  Convection:
  \<^verbatim>\<open>
  AC = np.zeros((nx, nx))
  for i in range(nx-1):
      AC[i,i+1] = 1
      AC[i+1,i] = -1
  AC[0,-1] = -1
  AC[-1,0] = 1
  AC = AC * C / (2*dx)
  \<close>
\<close>

definition AC_loop :: "nat \<Rightarrow> real matrix \<Rightarrow> real matrix" where
  "AC_loop nx A0 = fold (\<lambda>i A. setitem (setitem A i (i + 1) 1) (i + 1) i (- 1)) [0..<nx - 1] A0"

definition AC :: "nat \<Rightarrow> real \<Rightarrow> real \<Rightarrow> error + real matrix" where
  "AC nx C dx =
     ebind (setitem_py (AC_loop nx (zeros2 nx nx)) 0 (- 1) (- 1)) (\<lambda>A1.
     ebind (setitem_py A1 (- 1) 0 1) (\<lambda>A2.
     scale_div A2 C (2 * dx)))"

text \<open>
  Diffusion:
  \<^verbatim>\<open>
  AD = 2*np.eye(nx)
  for i in range(nx-1):
      AD[i,i+1] = -1
      AD[i+1,i] = -1
  AD[0,-1] = -1
  AD[-1,0] = -1
  AD = AD * D / np.square(dx)
  \<close>
\<close>

definition AD_loop :: "nat \<Rightarrow> real matrix \<Rightarrow> real matrix" where
  "AD_loop nx A0 = fold (\<lambda>i A. setitem (setitem A i (i + 1) (- 1)) (i + 1) i (- 1)) [0..<nx - 1] A0"

definition AD :: "nat \<Rightarrow> real \<Rightarrow> real \<Rightarrow> error + real matrix" where
  "AD nx D dx =
     ebind (setitem_py (AD_loop nx (map (map (\<lambda>e. 2 * e)) (eye nx))) 0 (- 1) (- 1)) (\<lambda>A1.
     ebind (setitem_py A1 (- 1) 0 (- 1)) (\<lambda>A2.
     scale_div A2 D (dx\<^sup>2)))"

text \<open>
  Reaction \<^verbatim>\<open>AS = -S*np.eye(nx)\<close> and the sum \<^verbatim>\<open>A = AC + AD + AS\<close>.
\<close>

definition AS :: "nat \<Rightarrow> real \<Rightarrow> real matrix" where
  "AS nx S = map (map (\<lambda>e. - S * e)) (eye nx)"

definition A_fd :: "nat \<Rightarrow> real \<Rightarrow> real \<Rightarrow> real \<Rightarrow> real \<Rightarrow> error + real matrix" where
  "A_fd nx dx C D S =
     ebind (AC nx C dx) (\<lambda>ac.
     ebind (AD nx D dx) (\<lambda>ad.
     Inr (mat_add (mat_add ac ad) (AS nx S))))"

text \<open>
  \<^verbatim>\<open>A = np.matrix(A); AH = A.H; H1 = (A+AH)/2; H2 = (A-AH)/2\<close>. The array has a real
  element type, on which the conjugate transpose \<^verbatim>\<open>.H\<close> is the transpose.
\<close>

definition getH :: "real matrix \<Rightarrow> real matrix" where
  "getH A = map (\<lambda>i. map (\<lambda>j. A ! j ! i) [0..<length A]) [0..<length A]"

definition H1 :: "real matrix \<Rightarrow> real matrix" where
  "H1 A = map (map (\<lambda>a. a / 2)) (mat_add A (getH A))"

definition H2 :: "real matrix \<Rightarrow> real matrix" where
  "H2 A = map (map (\<lambda>a. a / 2)) (mat_sub A (getH A))"

subsection \<open>The operator as the specification describes it\<close>

text \<open>
  The matrices of the specification, entry by entry: the periodic central difference
  couples grid point \<open>i\<close> to its cyclic neighbours \<open>(i + 1) mod n\<close> (weight \<open>1\<close>) and
  \<open>(i - 1) mod n\<close> (weight \<open>-1\<close>); the periodic second-difference stencil has \<open>2\<close>
  on the diagonal and \<open>-1\<close> on both cyclic neighbours.
\<close>

definition mk_mat :: "nat \<Rightarrow> (nat \<Rightarrow> nat \<Rightarrow> 'a) \<Rightarrow> 'a matrix" where
  "mk_mat n f = map (\<lambda>i. map (\<lambda>j. f i j) [0..<n]) [0..<n]"

definition conv_entry :: "nat \<Rightarrow> nat \<Rightarrow> nat \<Rightarrow> real" where
  "conv_entry n i j = (if j = (i + 1) mod n then 1 else if i = (j + 1) mod n then - 1 else 0)"

definition diff_entry :: "nat \<Rightarrow> nat \<Rightarrow> nat \<Rightarrow> real" where
  "diff_entry n i j = (if i = j then 2 else if j = (i + 1) mod n \<or> i = (j + 1) mod n then - 1 else 0)"

subsection \<open>Entries of the assembled matrices\<close>

definition is_mat :: "nat \<Rightarrow> 'a matrix \<Rightarrow> bool" where
  "is_mat n A = (length A = n \<and> (\<forall>i<n. length (A ! i) = n))"

lemma mat_eqI:
  assumes "is_mat n A" "is_mat n B" "\<And>i j. i < n \<Longrightarrow> j < n \<Longrightarrow> A ! i ! j = B ! i ! j"
  shows "A = B"
proof (rule nth_equalityI)
  show "length A = length B" using assms by (simp add: is_mat_def)
next
  fix i assume "i < length A"
  then have i: "i < n" using assms(1) by (simp add: is_mat_def)
  show "A ! i = B ! i"
  proof (rule nth_equalityI)
    show "length (A ! i) = length (B ! i)" using assms(1,2) i by (simp add: is_mat_def)
  next
    fix j assume "j < length (A ! i)"
    then have "j < n" using assms(1) i by (simp add: is_mat_def)
    then show "A ! i ! j = B ! i ! j" using i assms(3) by simp
  qed
qed

lemma is_mat_mk [simp]: "is_mat n (mk_mat n f)"
  by (simp add: is_mat_def mk_mat_def)

lemma length_mk_mat [simp]: "length (mk_mat n f) = n"
  by (simp add: mk_mat_def)

lemma length_mk_mat_row [simp]: "i < n \<Longrightarrow> length (mk_mat n f ! i) = n"
  by (simp add: mk_mat_def)

lemma mk_mat_nth [simp]: "i < n \<Longrightarrow> j < n \<Longrightarrow> mk_mat n f ! i ! j = f i j"
  by (simp add: mk_mat_def)

lemma is_mat_setitem [simp]: "is_mat n A \<Longrightarrow> is_mat n (setitem A i j v)"
  by (cases "i < length A") (auto simp: is_mat_def setitem_def nth_list_update)

lemma setitem_nth:
  "is_mat n A \<Longrightarrow> i < n \<Longrightarrow> j < n \<Longrightarrow> a < n \<Longrightarrow> b < n \<Longrightarrow>
     setitem A i j v ! a ! b = (if a = i \<and> b = j then v else A ! a ! b)"
  by (auto simp: is_mat_def setitem_def nth_list_update)

lemma is_mat_map [simp]: "is_mat n A \<Longrightarrow> is_mat n (map (map f) A)"
  by (auto simp: is_mat_def)

lemma map_map_nth [simp]:
  "is_mat n A \<Longrightarrow> i < n \<Longrightarrow> j < n \<Longrightarrow> map (map f) A ! i ! j = f (A ! i ! j)"
  by (auto simp: is_mat_def)

lemma is_mat_add [simp]: "is_mat n A \<Longrightarrow> is_mat n B \<Longrightarrow> is_mat n (mat_add A B)"
  by (auto simp: is_mat_def mat_add_def)

lemma mat_add_nth [simp]:
  "is_mat n A \<Longrightarrow> is_mat n B \<Longrightarrow> i < n \<Longrightarrow> j < n \<Longrightarrow>
     mat_add A B ! i ! j = A ! i ! j + B ! i ! j"
  by (auto simp: is_mat_def mat_add_def)

lemma is_mat_sub [simp]: "is_mat n A \<Longrightarrow> is_mat n B \<Longrightarrow> is_mat n (mat_sub A B)"
  by (auto simp: is_mat_def mat_sub_def)

lemma mat_sub_nth [simp]:
  "is_mat n A \<Longrightarrow> is_mat n B \<Longrightarrow> i < n \<Longrightarrow> j < n \<Longrightarrow>
     mat_sub A B ! i ! j = A ! i ! j - B ! i ! j"
  by (auto simp: is_mat_def mat_sub_def)

lemma is_mat_zeros2 [simp]: "is_mat n (zeros2 n n)"
  by (simp add: is_mat_def zeros2_def)

lemma zeros2_nth [simp]: "i < n \<Longrightarrow> j < n \<Longrightarrow> zeros2 n n ! i ! j = 0"
  by (simp add: zeros2_def)

lemma eye_mk: "eye n = mk_mat n (\<lambda>i j. if i = j then 1 else 0)"
  by (simp add: eye_def mk_mat_def)

lemma is_mat_getH [simp]: "is_mat n A \<Longrightarrow> is_mat n (getH A)"
  by (simp add: is_mat_def getH_def)

lemma getH_nth [simp]: "is_mat n A \<Longrightarrow> i < n \<Longrightarrow> j < n \<Longrightarrow> getH A ! i ! j = A ! j ! i"
  by (simp add: is_mat_def getH_def)

text \<open>The two band-filling loops, after m iterations.\<close>

lemma band_loop:
  assumes "is_mat n A0" "m \<le> n - 1"
  shows "is_mat n (fold (\<lambda>i A. setitem (setitem A i (i + 1) p) (i + 1) i q) [0..<m] A0) \<and>
    (\<forall>a<n. \<forall>b<n. fold (\<lambda>i A. setitem (setitem A i (i + 1) p) (i + 1) i q) [0..<m] A0 ! a ! b
       = (if a = b + 1 \<and> b < m then q else if b = a + 1 \<and> a < m then p else A0 ! a ! b))"
  using assms(2)
proof (induction m)
  case 0
  then show ?case using assms(1) by simp
next
  case (Suc m)
  let ?F = "fold (\<lambda>i A. setitem (setitem A i (i + 1) p) (i + 1) i q) [0..<m] A0"
  from Suc have IH: "is_mat n ?F"
    "\<And>a b. a < n \<Longrightarrow> b < n \<Longrightarrow> ?F ! a ! b
       = (if a = b + 1 \<and> b < m then q else if b = a + 1 \<and> a < m then p else A0 ! a ! b)"
    by auto
  from Suc.prems have m: "m < n" "m + 1 < n" by auto
  have step: "fold (\<lambda>i A. setitem (setitem A i (i + 1) p) (i + 1) i q) [0..<Suc m] A0
      = setitem (setitem ?F m (m + 1) p) (m + 1) m q"
    by simp
  show ?case
    unfolding step using IH m
    by (auto simp: setitem_nth [where n = n])
qed


text \<open>
  What the assembly leaves at position \<open>(a, b)\<close>, in the order in which later writes
  override earlier ones: the two wrap-around writes, the band written by the loop,
  the initial diagonal.
\<close>

definition corner_band :: "nat \<Rightarrow> real \<Rightarrow> real \<Rightarrow> real \<Rightarrow> real \<Rightarrow> real \<Rightarrow> nat \<Rightarrow> nat \<Rightarrow> real" where
  "corner_band n c1 c0 q p d a b =
     (if a = n - 1 \<and> b = 0 then c1 else if a = 0 \<and> b = n - 1 then c0
      else if a = b + 1 then q else if b = a + 1 then p else if a = b then d else 0)"

lemma py_index_first: "0 < n \<Longrightarrow> py_index n 0 = Inr 0"
  by (simp add: py_index_def)

lemma py_index_last: "0 < n \<Longrightarrow> py_index n (- 1) = Inr (n - 1)"
  by (simp add: py_index_def Let_def nat_diff_distrib')

lemma setitem_py_corner0:
  "is_mat n A \<Longrightarrow> 0 < n \<Longrightarrow> setitem_py A 0 (- 1) v = Inr (setitem A 0 (n - 1) v)"
  by (simp add: setitem_py_def ebind_def is_mat_def py_index_first py_index_last)

lemma setitem_py_corner1:
  "is_mat n A \<Longrightarrow> 0 < n \<Longrightarrow> setitem_py A (- 1) 0 v = Inr (setitem A (n - 1) 0 v)"
  by (simp add: setitem_py_def ebind_def is_mat_def py_index_first py_index_last)

lemma assembled_band:
  assumes A0: "is_mat n A0" "\<And>a b. a < n \<Longrightarrow> b < n \<Longrightarrow> A0 ! a ! b = (if a = b then d else 0)"
    and n: "0 < n" and dz: "dv \<noteq> 0"
  shows "ebind (setitem_py (fold (\<lambda>i A. setitem (setitem A i (i + 1) p) (i + 1) i q) [0..<n - 1] A0) 0 (- 1) c0)
           (\<lambda>A1. ebind (setitem_py A1 (- 1) 0 c1) (\<lambda>A2. scale_div A2 c dv))
         = Inr (mk_mat n (\<lambda>a b. corner_band n c1 c0 q p d a b * c / dv))"
proof -
  define F where "F = fold (\<lambda>i A. setitem (setitem A i (i + 1) p) (i + 1) i q) [0..<n - 1] A0"
  have F: "is_mat n F"
    "\<And>a b. a < n \<Longrightarrow> b < n \<Longrightarrow> F ! a ! b
       = (if a = b + 1 \<and> b < n - 1 then q else if b = a + 1 \<and> a < n - 1 then p else A0 ! a ! b)"
    using band_loop [OF A0(1), of "n - 1" p q] unfolding F_def by auto
  define A2 where "A2 = setitem (setitem F 0 (n - 1) c0) (n - 1) 0 c1"
  have A2: "is_mat n A2" using F(1) by (simp add: A2_def)
  have ent: "A2 ! i ! j = corner_band n c1 c0 q p d i j" if ij: "i < n" "j < n" for i j
    using ij n F(1) unfolding A2_def
    by (auto simp: setitem_nth [where n = n] F(2) A0(2) corner_band_def)
  have "map (map (\<lambda>a. a * c / dv)) A2 = mk_mat n (\<lambda>a b. corner_band n c1 c0 q p d a b * c / dv)"
  proof (rule mat_eqI [where n = n])
    show "is_mat n (map (map (\<lambda>a. a * c / dv)) A2)" using A2 by simp
    show "is_mat n (mk_mat n (\<lambda>a b. corner_band n c1 c0 q p d a b * c / dv))" by simp
  next
    fix i j assume ij: "i < n" "j < n"
    show "map (map (\<lambda>a. a * c / dv)) A2 ! i ! j
        = mk_mat n (\<lambda>a b. corner_band n c1 c0 q p d a b * c / dv) ! i ! j"
      using A2 ij ent [OF ij] by (simp add: map_map_nth [where n = n])
  qed
  then show ?thesis
    using F(1) n dz unfolding F_def [symmetric] A2_def
    by (simp add: setitem_py_corner0 [where n = n] setitem_py_corner1 [where n = n]
        ebind_def scale_div_def)
qed

lemma AC_entries:
  assumes "0 < nx" "dx \<noteq> 0"
  shows "AC nx C dx = Inr (mk_mat nx (\<lambda>a b. corner_band nx 1 (- 1) (- 1) 1 0 a b * C / (2 * dx)))"
  unfolding AC_def AC_loop_def
  by (rule assembled_band) (use assms in auto)

lemma AD_entries:
  assumes "0 < nx" "dx \<noteq> 0"
  shows "AD nx D dx = Inr (mk_mat nx (\<lambda>a b. corner_band nx (- 1) (- 1) (- 1) (- 1) 2 a b * D / dx\<^sup>2))"
  unfolding AD_def AD_loop_def
  by (rule assembled_band) (use assms in \<open>auto simp: eye_mk\<close>)

lemma AS_entries: "AS nx S = mk_mat nx (\<lambda>a b. if a = b then - S else 0)"
  by (rule mat_eqI [where n = nx]) (auto simp: AS_def eye_mk)

lemma corner_band_conv:
  "3 \<le> n \<Longrightarrow> a < n \<Longrightarrow> b < n \<Longrightarrow> corner_band n 1 (- 1) (- 1) 1 0 a b = conv_entry n a b"
  by (auto simp: corner_band_def conv_entry_def mod_Suc)

lemma corner_band_diff:
  "3 \<le> n \<Longrightarrow> a < n \<Longrightarrow> b < n \<Longrightarrow> corner_band n (- 1) (- 1) (- 1) (- 1) 2 a b = diff_entry n a b"
  by (auto simp: corner_band_def diff_entry_def mod_Suc)


subsection \<open>Decomposition of the operator\<close>

definition Conv_spec :: "nat \<Rightarrow> real \<Rightarrow> real \<Rightarrow> real matrix" where
  "Conv_spec n C dx = mk_mat n (\<lambda>i j. C / (2 * dx) * conv_entry n i j)"

definition Diff_spec :: "nat \<Rightarrow> real \<Rightarrow> real \<Rightarrow> real matrix" where
  "Diff_spec n D dx = mk_mat n (\<lambda>i j. D / dx\<^sup>2 * diff_entry n i j)"

definition scalar_identity :: "nat \<Rightarrow> real \<Rightarrow> real matrix" where
  "scalar_identity n s = mk_mat n (\<lambda>i j. if i = j then s else 0)"

definition mat_neg :: "real matrix \<Rightarrow> real matrix" where
  "mat_neg A = map (map uminus) A"

text \<open>
  Claim C1 (as amended). For every grid size \<open>nx \<ge> 3\<close> and every nonzero spacing, the
  assembled operator is the sum of the periodic central-difference matrix scaled by
  \<open>C / (2 dx)\<close>, the periodic stencil \<open>(-1, 2, -1)\<close> scaled by \<open>D / dx\<^sup>2\<close>, and the
  reaction term \<open>-S\<close> times the identity: \<open>A = Conv + Diff - S I\<close>.
\<close>

theorem A_fd_decomposition:
  assumes "3 \<le> nx" "dx \<noteq> 0"
  shows "A_fd nx dx C D S
    = Inr (mat_add (mat_add (Conv_spec nx C dx) (Diff_spec nx D dx)) (scalar_identity nx (- S)))"
proof -
  have n: "0 < nx" using assms by simp
  have "mk_mat nx (\<lambda>a b. corner_band nx 1 (- 1) (- 1) 1 0 a b * C / (2 * dx)) = Conv_spec nx C dx"
    unfolding Conv_spec_def
    by (rule mat_eqI [where n = nx]) (use assms in \<open>simp_all add: corner_band_conv\<close>)
  moreover have "mk_mat nx (\<lambda>a b. corner_band nx (- 1) (- 1) (- 1) (- 1) 2 a b * D / dx\<^sup>2)
      = Diff_spec nx D dx"
    unfolding Diff_spec_def
    by (rule mat_eqI [where n = nx]) (use assms in \<open>simp_all add: corner_band_diff\<close>)
  ultimately show ?thesis
    by (simp add: A_fd_def AC_entries [OF n assms(2)] AD_entries [OF n assms(2)] ebind_def
        AS_entries scalar_identity_def)
qed

theorem A_fd_decomposition_witness:
  "(3::nat) \<le> 4 \<and> (1::real) \<noteq> 0 \<and> A_fd 4 1 4 1 (- 1 / 5)
    = Inr (mat_add (mat_add (Conv_spec 4 4 1) (Diff_spec 4 1 1)) (scalar_identity 4 (- (- 1 / 5))))"
  using A_fd_decomposition [of 4 1 4 1 "- 1 / 5"] by simp


text \<open>
  Claim C1 as stated, with the reaction term \<open>S I\<close>, fails: with \<open>C = D = 0\<close> and
  \<open>S = 1\<close> on three grid points the assembled operator is minus the identity.
\<close>

theorem A_fd_reaction_sign_counterexample:
  "A_fd 3 1 0 0 1 = Inr [[- 1, 0, 0], [0, - 1, 0], [0, 0, - 1]] \<and>
   A_fd 3 1 0 0 1
     \<noteq> Inr (mat_add (mat_add (Conv_spec 3 0 1) (Diff_spec 3 0 1)) (scalar_identity 3 1))"
  by code_simp

subsection \<open>Symmetry of the parts and the Hermitian split\<close>

lemma is_mat_neg [simp]: "is_mat n A \<Longrightarrow> is_mat n (mat_neg A)"
  by (simp add: mat_neg_def)

lemma is_mat_H1 [simp]: "is_mat n A \<Longrightarrow> is_mat n (H1 A)"
  by (simp add: H1_def)

lemma is_mat_H2 [simp]: "is_mat n A \<Longrightarrow> is_mat n (H2 A)"
  by (simp add: H2_def)

lemma H1_nth:
  "is_mat n A \<Longrightarrow> i < n \<Longrightarrow> j < n \<Longrightarrow> H1 A ! i ! j = (A ! i ! j + A ! j ! i) / 2"
  by (simp add: H1_def map_map_nth [where n = n] mat_add_nth [where n = n] getH_nth [where n = n])

lemma H2_nth:
  "is_mat n A \<Longrightarrow> i < n \<Longrightarrow> j < n \<Longrightarrow> H2 A ! i ! j = (A ! i ! j - A ! j ! i) / 2"
  by (simp add: H2_def map_map_nth [where n = n] mat_sub_nth [where n = n] getH_nth [where n = n])

lemma H1_hermitian: "is_mat n A \<Longrightarrow> getH (H1 A) = H1 A"
  by (rule mat_eqI [where n = n])
     (simp_all add: getH_nth [where n = n] H1_nth [where n = n] add.commute)

lemma H2_antihermitian: "is_mat n A \<Longrightarrow> getH (H2 A) = mat_neg (H2 A)"
  by (rule mat_eqI [where n = n])
     (simp_all add: getH_nth [where n = n] H2_nth [where n = n] mat_neg_def
        map_map_nth [where n = n] diff_divide_distrib)

lemma H1_plus_H2: "is_mat n A \<Longrightarrow> mat_add (H1 A) (H2 A) = A"
  by (rule mat_eqI [where n = n])
     (simp_all add: mat_add_nth [where n = n] H1_nth [where n = n] H2_nth [where n = n]
        field_simps)

lemma corner_band_antisym:
  "2 \<le> n \<Longrightarrow> a < n \<Longrightarrow> b < n \<Longrightarrow>
     corner_band n 1 (- 1) (- 1) 1 0 b a = - corner_band n 1 (- 1) (- 1) 1 0 a b"
  by (auto simp: corner_band_def)

lemma corner_band_sym:
  "a < n \<Longrightarrow> b < n \<Longrightarrow>
     corner_band n (- 1) (- 1) (- 1) (- 1) 2 b a = corner_band n (- 1) (- 1) (- 1) (- 1) 2 a b"
  by (auto simp: corner_band_def)

text \<open>
  Claim C6. For the finite-difference operator on at least two grid points: the
  convection part is antisymmetric, the diffusion and reaction parts are symmetric
  (wrap-around entries included), \<open>H1\<close> equals its conjugate transpose, \<open>H2\<close> equals
  minus its conjugate transpose, and \<open>H1 + H2\<close> gives back \<open>A\<close>.
\<close>

theorem fd_operator_symmetry:
  assumes "2 \<le> nx" "dx \<noteq> 0"
  shows "\<exists>ac ad a. AC nx C dx = Inr ac \<and> AD nx D dx = Inr ad \<and> A_fd nx dx C D S = Inr a \<and>
     getH ac = mat_neg ac \<and> getH ad = ad \<and> getH (AS nx S) = AS nx S \<and>
     getH (H1 a) = H1 a \<and> getH (H2 a) = mat_neg (H2 a) \<and> mat_add (H1 a) (H2 a) = a"
proof -
  have n: "0 < nx" using assms by simp
  define ac where "ac = mk_mat nx (\<lambda>a b. corner_band nx 1 (- 1) (- 1) 1 0 a b * C / (2 * dx))"
  define ad where "ad = mk_mat nx (\<lambda>a b. corner_band nx (- 1) (- 1) (- 1) (- 1) 2 a b * D / dx\<^sup>2)"
  define a where "a = mat_add (mat_add ac ad) (AS nx S)"
  have ac: "AC nx C dx = Inr ac" unfolding ac_def by (rule AC_entries [OF n assms(2)])
  have ad: "AD nx D dx = Inr ad" unfolding ad_def by (rule AD_entries [OF n assms(2)])
  have a: "A_fd nx dx C D S = Inr a" by (simp add: A_fd_def ac ad ebind_def a_def)
  have m: "is_mat nx ac" "is_mat nx ad" "is_mat nx (AS nx S)"
    by (simp_all add: ac_def ad_def AS_entries)
  then have ma: "is_mat nx a" by (simp add: a_def)
  have "getH ac = mat_neg ac"
  proof (rule mat_eqI [where n = nx])
    fix i j assume ij: "i < nx" "j < nx"
    then show "getH ac ! i ! j = mat_neg ac ! i ! j"
      using corner_band_antisym [OF assms(1) ij]
      by (simp add: m getH_nth [where n = nx] mat_neg_def map_map_nth [where n = nx] ac_def)
  qed (simp_all add: m)
  moreover have "getH ad = ad"
  proof (rule mat_eqI [where n = nx])
    fix i j assume ij: "i < nx" "j < nx"
    then show "getH ad ! i ! j = ad ! i ! j"
      using corner_band_sym [OF ij]
      by (simp add: m getH_nth [where n = nx] ad_def)
  qed (simp_all add: m)
  moreover have "getH (AS nx S) = AS nx S"
  proof (rule mat_eqI [where n = nx])
    fix i j assume ij: "i < nx" "j < nx"
    then show "getH (AS nx S) ! i ! j = AS nx S ! i ! j"
      by (simp add: m getH_nth [where n = nx]) (simp add: AS_entries)
  qed (simp_all add: m)
  ultimately show ?thesis
    using ac ad a H1_hermitian [OF ma] H2_antihermitian [OF ma] H1_plus_H2 [OF ma] by blast
qed

theorem fd_operator_symmetry_witness:
  "(2::nat) \<le> 4 \<and> (1::real) \<noteq> 0 \<and>
   (\<exists>ac ad a. AC 4 4 1 = Inr ac \<and> AD 4 1 1 = Inr ad \<and> A_fd 4 1 4 1 (- 1 / 5) = Inr a \<and>
     getH ac = mat_neg ac \<and> getH ad = ad \<and> getH (AS 4 (- 1 / 5)) = AS 4 (- 1 / 5) \<and>
     getH (H1 a) = H1 a \<and> getH (H2 a) = mat_neg (H2 a) \<and> mat_add (H1 a) (H2 a) = a)"
  using fd_operator_symmetry [of 4 1 4 1 "- 1 / 5"] by simp

section \<open>Auxiliary axis and profile\<close>

text \<open>
  \<^verbatim>\<open>np.linspace(start, stop, num=num, endpoint=False)\<close>: \<open>num\<close> points from \<open>start\<close>
  in steps of \<open>(stop - start) / num\<close>; the stop value is not among them.
  \<^verbatim>\<open>y = np.linspace(-np.pi*(wy/2+shift), np.pi*(wy/2-shift), num=ny, endpoint=False)\<close>
  and \<^verbatim>\<open>bottom = np.exp(-np.pi*(wy/2-shift))\<close>.
\<close>

definition linspace_open :: "real \<Rightarrow> real \<Rightarrow> nat \<Rightarrow> real list" where
  "linspace_open start stop num = map (\<lambda>i. start + real i * ((stop - start) / real num)) [0..<num]"

definition y_axis :: "real \<Rightarrow> real \<Rightarrow> nat \<Rightarrow> real list" where
  "y_axis wy shift ny = linspace_open (- pi * (wy / 2 + shift)) (pi * (wy / 2 - shift)) ny"

definition bottom :: "real \<Rightarrow> real \<Rightarrow> real" where
  "bottom wy shift = exp (- pi * (wy / 2 - shift))"

text \<open>
  The body of the loop over the axis points:
  \<^verbatim>\<open>
  if vy < -np.pi*(wy/2+shift-bzone) or vy > np.pi*(wy/2-shift-bzone):
      v_init[i] = 0
  elif vy < - np.pi * shift :
      tmp = np.exp(alpha*(vy+shift*(1+1/alpha)*np.pi))
      if tmp < bottom :
          tmp = bottom
      v_init[i] = tmp
  else:
      v_init[i] = np.exp(-vy)
  \<close>
  \<^verbatim>\<open>alpha\<close> is a Python number, so \<^verbatim>\<open>1/alpha\<close> raises \<^verbatim>\<open>ZeroDivisionError\<close>
  when it is zero, and only when the second branch is reached. The loop fills the
  array position by position; the model returns the values in axis order.
\<close>

definition v_init_at :: "real \<Rightarrow> real \<Rightarrow> real \<Rightarrow> real \<Rightarrow> real \<Rightarrow> error + real" where
  "v_init_at wy shift alpha bzone vy =
     (if vy < - pi * (wy / 2 + shift - bzone) \<or> vy > pi * (wy / 2 - shift - bzone) then Inr 0
      else if vy < - pi * shift then
        (if alpha = 0 then Inl ZeroDivisionError
         else let tmp = exp (alpha * (vy + shift * (1 + 1 / alpha) * pi))
              in Inr (if tmp < bottom wy shift then bottom wy shift else tmp))
      else Inr (exp (- vy)))"

fun v_init :: "real \<Rightarrow> real \<Rightarrow> real \<Rightarrow> real \<Rightarrow> real list \<Rightarrow> error + real list" where
  "v_init wy shift alpha bzone [] = Inr []"
| "v_init wy shift alpha bzone (vy # y) =
     ebind (v_init_at wy shift alpha bzone vy) (\<lambda>v.
     ebind (v_init wy shift alpha bzone y) (\<lambda>vs. Inr (v # vs)))"

text \<open>The profile policy of the specification, for one axis point.\<close>

definition profile_spec :: "real \<Rightarrow> real \<Rightarrow> real \<Rightarrow> real \<Rightarrow> real \<Rightarrow> real" where
  "profile_spec wy shift alpha bzone vy =
     (if vy \<notin> {- pi * (wy / 2 + shift - bzone) .. pi * (wy / 2 - shift - bzone)} then 0
      else if vy < - pi * shift then
        max (exp (alpha * (vy + shift * (1 + 1 / alpha) * pi))) (exp (- pi * (wy / 2 - shift)))
      else exp (- vy))"

lemma v_init_at_spec:
  "alpha \<noteq> 0 \<Longrightarrow> v_init_at wy shift alpha bzone vy = Inr (profile_spec wy shift alpha bzone vy)"
  by (auto simp: v_init_at_def profile_spec_def bottom_def Let_def max_def)

text \<open>
  Claim C2. For every axis point \<open>vy\<close> the profile value follows the priority-ordered
  rule: \<open>0\<close> outside the closed interval
  \<open>[-\<pi> (wy/2 + shift - bzone), \<pi> (wy/2 - shift - bzone)]\<close>; otherwise, below
  \<open>-\<pi> shift\<close>, the maximum of \<open>exp (alpha (vy + shift (1 + 1/alpha) \<pi>))\<close> and
  \<open>bottom = exp (-\<pi> (wy/2 - shift))\<close>; otherwise \<open>exp (-vy)\<close>. The rule divides by
  \<open>alpha\<close>, which is taken to be nonzero.
\<close>

theorem v_init_profile:
  assumes "alpha \<noteq> 0"
  shows "v_init wy shift alpha bzone y = Inr (map (profile_spec wy shift alpha bzone) y)"
  by (induction y) (simp_all add: v_init_at_spec [OF assms] ebind_def)

theorem v_init_profile_witness:
  "(10::real) \<noteq> 0 \<and> v_init 8 0 10 0 (y_axis 8 0 2) = Inr [exp (- (4 * pi)), 1]"
proof -
  have y: "y_axis 8 0 2 = [- (4 * pi), 0]"
    by (simp add: y_axis_def linspace_open_def upt_rec numeral_2_eq_2)
  have "profile_spec 8 0 10 0 (- (4 * pi)) = exp (- (4 * pi))"
    by (simp add: profile_spec_def max_def)
  moreover have "profile_spec 8 0 10 0 0 = 1"
    by (simp add: profile_spec_def)
  ultimately show ?thesis
    using v_init_profile [of 10 8 0 0 "y_axis 8 0 2"] by (simp add: y)
qed

section \<open>Wavenumbers of the frequency components\<close>

text \<open>
  \<^verbatim>\<open>fft.fftfreq(n)\<close> with unit sample spacing:
  \<^verbatim>\<open>
  val = 1.0 / (n * d)
  N = (n-1)//2 + 1
  results[:N] = arange(0, N)
  results[N:] = arange(-(n//2), 0)
  return results * val
  \<close>
  and \<^verbatim>\<open>kv = fft.fftfreq(ny)*ny*2/wy\<close>. For \<open>n = 0\<close> the first line divides by
  zero; dividing the array by \<open>wy = 0\<close> leaves no real values.
\<close>

definition fftfreq :: "nat \<Rightarrow> error + real list" where
  "fftfreq n =
     (if n = 0 then Inl ZeroDivisionError
      else Inr (map (\<lambda>r. real_of_int r * (1 / real n))
                 (map int [0..<(n - 1) div 2 + 1] @ [- int (n div 2) .. - 1])))"

definition kv :: "nat \<Rightarrow> real \<Rightarrow> error + real list" where
  "kv ny wy =
     ebind (fftfreq ny) (\<lambda>f.
     if wy = 0 then Inl InvalidValue else Inr (map (\<lambda>x. x * real ny * 2 / wy) f))"

text \<open>The signed integer frequency bin of index \<open>i\<close> on a grid of \<open>n\<close> points.\<close>

definition fft_bin :: "nat \<Rightarrow> nat \<Rightarrow> int" where
  "fft_bin n i = (if 2 * i < n then int i else int i - int n)"

lemma fftfreq_bins:
  assumes "0 < n"
  shows "map int [0..<(n - 1) div 2 + 1] @ [- int (n div 2) .. - 1] = map (fft_bin n) [0..<n]"
proof (rule nth_equalityI)
  show "length (map int [0..<(n - 1) div 2 + 1] @ [- int (n div 2) .. - 1]) = length (map (fft_bin n) [0..<n])"
    using assms by simp
next
  fix i assume "i < length (map int [0..<(n - 1) div 2 + 1] @ [- int (n div 2) .. - 1])"
  then have i: "i < n" using assms by simp
  show "(map int [0..<(n - 1) div 2 + 1] @ [- int (n div 2) .. - 1]) ! i = map (fft_bin n) [0..<n] ! i"
  proof (cases "i < (n - 1) div 2 + 1")
    case True
    then have "2 * i < n" using assms by presburger
    with True i show ?thesis by (simp add: nth_append fft_bin_def)
  next
    case False
    then have ge: "\<not> 2 * i < n" using assms by presburger
    have "[- int (n div 2) .. - 1] ! (i - ((n - 1) div 2 + 1)) = - int (n div 2) + int (i - ((n - 1) div 2 + 1))"
      by (rule nth_upto) (use False i assms in presburger)
    also have "\<dots> = int i - int n" using False i assms by presburger
    finally show ?thesis using False i ge by (simp add: nth_append fft_bin_def)
  qed
qed

text \<open>
  Claim C7. For every auxiliary grid size \<open>ny > 0\<close> and width \<open>wy \<noteq> 0\<close>, the
  wavenumber of the \<open>i\<close>-th frequency component is the signed integer frequency bin
  of index \<open>i\<close> scaled by \<open>2 / wy\<close>: the normalised frequency grid times \<open>ny\<close> is the
  integer bin.
\<close>

theorem kv_integer_bins:
  assumes "0 < ny" "wy \<noteq> 0"
  shows "kv ny wy = Inr (map (\<lambda>i. real_of_int (fft_bin ny i) * (2 / wy)) [0..<ny])"
proof -
  have "map (\<lambda>x. x * real ny * 2 / wy)
          (map (\<lambda>r. real_of_int r * (1 / real ny)) (map (fft_bin ny) [0..<ny]))
      = map (\<lambda>i. real_of_int (fft_bin ny i) * (2 / wy)) [0..<ny]"
    using assms by (simp add: comp_def)
  then show ?thesis
    using assms unfolding kv_def fftfreq_def ebind_def fftfreq_bins [OF assms(1)] by simp
qed

theorem kv_integer_bins_witness:
  "(0::nat) < 4 \<and> (8::real) \<noteq> 0 \<and> kv 4 8 = Inr [0, 1 / 4, - (1 / 2), - (1 / 4)]"
  using kv_integer_bins [of 4 8] by (simp add: fft_bin_def upt_rec numeral_nat)

section \<open>Forward transform and state preparation\<close>

text \<open>
  \<^verbatim>\<open>fv = fft.fft(v_init, norm='forward')\<close>: the discrete Fourier transform with the
  factor \<open>1/n\<close> on the forward direction,
  \<open>fv[k] = (1/n) \<Sum>m<n. v[m] exp (-2 \<pi> \<i> k m / n)\<close>, written with
  \<open>cis \<theta> = exp (\<i> \<theta>)\<close>. An empty input is refused with \<^verbatim>\<open>ValueError\<close>.
\<close>

definition fft_forward :: "real list \<Rightarrow> error + complex list" where
  "fft_forward v =
     (let n = length v
      in if n = 0 then Inl ValueError
         else Inr (map (\<lambda>k. (\<Sum>m<n. complex_of_real (v ! m)
                                * cis (- (2 * pi * real k * real m / real n))) / of_nat n)
                    [0..<n]))"

text \<open>
  A circuit is the list of its instructions, in the order in which they are appended.
\<close>

datatype instr =
  Initialize "complex list" | Barrier | QFT nat | IQFT nat | Unitary "complex matrix" | SaveStatevector

text \<open>
  The amplitudes handed to the state initialisation,
  \<^verbatim>\<open>u0*fv[i]/np.abs(fv[i])\<close>. With \<^verbatim>\<open>np.abs(fv[i])\<close> equal to zero the division
  gives not-a-number amplitudes (\<open>InvalidValue\<close>).
\<close>

definition init_amplitudes :: "real list \<Rightarrow> complex \<Rightarrow> error + complex list" where
  "init_amplitudes u c =
     (if u \<noteq> [] \<and> cmod c = 0 then Inl InvalidValue
      else Inr (map (\<lambda>x. complex_of_real x * c / complex_of_real (cmod c)) u))"

text \<open>
  \<^verbatim>\<open>circ_init.initialize(params, qr)\<close> on a register of \<open>nq\<close> qubits. The library
  refuses the parameters unless their number is a positive power of two, the sum of
  their squared moduli is 1 (it compares up to a tolerance; the model is exact) and
  they fill the register, that is, there are \<open>2 ^ nq\<close> of them. Every refusal is a
  \<^verbatim>\<open>QiskitError\<close>.
\<close>

definition initialize :: "nat \<Rightarrow> complex list \<Rightarrow> error + instr" where
  "initialize nq params =
     (if 0 < nq \<and> length params = 2 ^ nq \<and> (\<Sum>z\<leftarrow>params. (cmod z)\<^sup>2) = 1
      then Inr (Initialize params) else Inl QiskitError)"

definition circ_init :: "nat \<Rightarrow> real list \<Rightarrow> complex \<Rightarrow> error + instr" where
  "circ_init nq u c = ebind (init_amplitudes u c) (initialize nq)"

text \<open>The unit-phase factor of the specification, \<open>c / |c|\<close>.\<close>

definition phase_factor :: "complex \<Rightarrow> complex" where
  "phase_factor c = c / complex_of_real (cmod c)"

lemma phase_factor_unit: "c \<noteq> 0 \<Longrightarrow> cmod (phase_factor c) = 1"
  by (simp add: phase_factor_def norm_divide)

lemma phased_squares:
  assumes "c \<noteq> 0"
  shows "(\<Sum>z\<leftarrow>map (\<lambda>x. complex_of_real x * phase_factor c) u. (cmod z)\<^sup>2) = (\<Sum>x\<leftarrow>u. x\<^sup>2)"
proof -
  have "cmod (complex_of_real x * phase_factor c) = \<bar>x\<bar>" for x
    using phase_factor_unit [OF assms] by (simp add: norm_mult)
  then have "map (\<lambda>z. (cmod z)\<^sup>2) (map (\<lambda>x. complex_of_real x * phase_factor c) u)
      = map (\<lambda>x. x\<^sup>2) u"
    by (simp add: comp_def)
  then show ?thesis by (rule arg_cong)
qed

lemma circ_init_prepared:
  assumes u: "u0 u_init = Inr u" and nq: "0 < nq" "length u_init = 2 ^ nq" and c: "c \<noteq> 0"
  shows "circ_init nq u c = Inr (Initialize (map (\<lambda>x. complex_of_real x * phase_factor c) u))"
    and "(\<Sum>z\<leftarrow>map (\<lambda>x. complex_of_real x * phase_factor c) u. (cmod z)\<^sup>2) = 1"
proof -
  have ne: "u_init \<noteq> []" using nq(2) by auto
  have lu: "length u = length u_init" using u by (auto simp: u0_def split: if_splits)
  have "u_init_norm u = 1" using u ne by (rule u0_norm_one)
  then have "(\<Sum>x\<leftarrow>u. x\<^sup>2) = 1" by (simp add: u_init_norm_def)
  then show one: "(\<Sum>z\<leftarrow>map (\<lambda>x. complex_of_real x * phase_factor c) u. (cmod z)\<^sup>2) = 1"
    by (simp only: phased_squares [OF c])
  have "map (\<lambda>x. complex_of_real x * c / complex_of_real (cmod c)) u
      = map (\<lambda>x. complex_of_real x * phase_factor c) u"
    by (simp add: phase_factor_def)
  then have "init_amplitudes u c = Inr (map (\<lambda>x. complex_of_real x * phase_factor c) u)"
    using c by (simp add: init_amplitudes_def)
  then show "circ_init nq u c = Inr (Initialize (map (\<lambda>x. complex_of_real x * phase_factor c) u))"
    using one nq lu by (simp add: circ_init_def ebind_def initialize_def)
qed

lemma circ_init_zero:
  assumes "u \<noteq> []"
  shows "circ_init nq u 0 = Inl InvalidValue"
  using assms by (simp add: circ_init_def init_amplitudes_def ebind_def)

lemma fft_forward_length: "fft_forward v = Inr fv \<Longrightarrow> length fv = length v"
  by (auto simp: fft_forward_def Let_def split: if_splits)

text \<open>
  Claim C10. The state preparation computes the amplitudes \<open>u0 c / |c|\<close> with no guard
  against \<open>|c| = 0\<close>. For the forward-transform coefficients \<open>c\<^sub>i\<close> of a profile and the
  normalised initial field on a register of \<open>nq > 0\<close> qubits: if every coefficient is
  nonzero, then for every frequency bin \<open>i\<close> the prepared state is \<open>u0\<close> times the
  factor \<open>c\<^sub>i / |c\<^sub>i|\<close>, the factor has modulus 1 and the state has Euclidean norm 1;
  at a bin whose coefficient is exactly zero the expression divides by zero.
\<close>

theorem circ_init_unit_phase:
  assumes "fft_forward v = Inr fv" "u0 u_init = Inr u" "0 < nq" "length u_init = 2 ^ nq"
  shows "(list_all (\<lambda>c. c \<noteq> 0) fv \<longrightarrow>
            (\<forall>i<length v.
               circ_init nq u (fv ! i)
                 = Inr (Initialize (map (\<lambda>x. complex_of_real x * phase_factor (fv ! i)) u)) \<and>
               cmod (phase_factor (fv ! i)) = 1 \<and>
               sqrt (\<Sum>z\<leftarrow>map (\<lambda>x. complex_of_real x * phase_factor (fv ! i)) u. (cmod z)\<^sup>2) = 1)) \<and>
         (\<forall>i<length v. fv ! i = 0 \<longrightarrow> circ_init nq u (fv ! i) = Inl InvalidValue)"
proof -
  have len: "length fv = length v" using assms(1) by (rule fft_forward_length)
  have "u_init \<noteq> []" using assms(4) by auto
  moreover have "length u = length u_init"
    using assms(2) by (auto simp: u0_def split: if_splits)
  ultimately have ne: "u \<noteq> []" by auto
  have "circ_init nq u (fv ! i)
          = Inr (Initialize (map (\<lambda>x. complex_of_real x * phase_factor (fv ! i)) u)) \<and>
        cmod (phase_factor (fv ! i)) = 1 \<and>
        sqrt (\<Sum>z\<leftarrow>map (\<lambda>x. complex_of_real x * phase_factor (fv ! i)) u. (cmod z)\<^sup>2) = 1"
    if all: "list_all (\<lambda>c. c \<noteq> 0) fv" and i: "i < length v" for i
  proof -
    have c: "fv ! i \<noteq> 0" using all i len by (simp add: list_all_length)
    show ?thesis
      using circ_init_prepared [OF assms(2,3,4) c] phase_factor_unit [OF c] by simp
  qed
  moreover have "circ_init nq u (fv ! i) = Inl InvalidValue" if "fv ! i = 0" for i
    using that circ_init_zero [OF ne] by simp
  ultimately show ?thesis by blast
qed

lemma fft_forward_12: "fft_forward [1, 2] = Inr [3 / 2, - (1 / 2)]"
  by (simp add: fft_forward_def Let_def upt_rec numeral_2_eq_2 lessThan_Suc cis_cnj [symmetric])

lemma fft_forward_11: "fft_forward [1, 1] = Inr [1, 0]"
  by (simp add: fft_forward_def Let_def upt_rec numeral_2_eq_2 lessThan_Suc cis_cnj [symmetric])

lemma u0_34: "u0 [3, 4] = Inr [3 / 5, 4 / 5]"
proof -
  have "u_init_norm [3, 4] = sqrt (5\<^sup>2)" by (simp add: u_init_norm_def)
  then have "u_init_norm [3, 4] = 5" by (simp only: real_sqrt_abs)
  then show ?thesis by (simp add: u0_def)
qed

theorem circ_init_unit_phase_witness:
  "fft_forward [1, 2] = Inr [3 / 2, - (1 / 2)] \<and> u0 [3, 4] = Inr [3 / 5, 4 / 5] \<and>
   (0::nat) < 1 \<and> length [3, 4 :: real] = 2 ^ 1 \<and>
   list_all (\<lambda>c. c \<noteq> 0) [3 / 2, - (1 / 2) :: complex] \<and>
   circ_init 1 [3 / 5, 4 / 5] (- (1 / 2)) = Inr (Initialize [- (3 / 5), - (4 / 5)]) \<and>
   cmod (phase_factor (- (1 / 2))) = 1 \<and>
   sqrt (\<Sum>z\<leftarrow>[- (3 / 5), - (4 / 5) :: complex]. (cmod z)\<^sup>2) = 1 \<and>
   fft_forward [1, 1] = Inr [1, 0] \<and> circ_init 1 [3 / 5, 4 / 5] 0 = Inl InvalidValue"
proof -
  have h: "(0::nat) < 1" "length [3, 4 :: real] = 2 ^ 1" by simp_all
  have nz: "list_all (\<lambda>c. c \<noteq> 0) [3 / 2, - (1 / 2) :: complex]" by simp
  have p: "phase_factor (- (1 / 2)) = - 1" by (simp add: phase_factor_def norm_divide)
  have i1: "(1::nat) < length [1, 2 :: real]" "(1::nat) < length [1, 1 :: real]" by simp_all
  have e1: "[3 / 2, - (1 / 2) :: complex] ! 1 = - (1 / 2)" "[1, 0 :: complex] ! 1 = 0" by simp_all
  note th1 = circ_init_unit_phase [OF fft_forward_12 u0_34 h]
  note th2 = circ_init_unit_phase [OF fft_forward_11 u0_34 h]
  have a: "circ_init 1 [3 / 5, 4 / 5] (- (1 / 2)) = Inr (Initialize [- (3 / 5), - (4 / 5)]) \<and>
      cmod (phase_factor (- (1 / 2))) = 1 \<and>
      sqrt (\<Sum>z\<leftarrow>[- (3 / 5), - (4 / 5) :: complex]. (cmod z)\<^sup>2) = 1"
    using th1 [THEN conjunct1, rule_format, OF nz i1(1)] unfolding e1 by (simp add: p)
  have b: "circ_init 1 [3 / 5, 4 / 5] 0 = Inl InvalidValue"
    using th2 [THEN conjunct2, rule_format, OF i1(2)] unfolding e1 by simp
  from a b fft_forward_12 fft_forward_11 u0_34 h nz show ?thesis by simp
qed

section \<open>Recombination of the evolved states\<close>

text \<open>
  \<^verbatim>\<open>
  idx = 0
  soln = np.zeros(nx, dtype='complex128')
  for i, k in enumerate(kv):
      soln += states[i].data * np.abs(fv[i]) * np.exp(1.j*np.pi*k*wy/2*2*(ny/2+idx)/ny)
  soln *= u_init_norm
  soln *= np.exp(y[int(ny/2+idx)])
  results[:,j] = soln.real
  \<close>
  \<open>recomb_phase\<close> is the exponential factor, with the operations in the order of the
  source; its last operation divides by \<open>ny\<close>, which fails for \<open>ny = 0\<close>. \<open>iadd\<close> is the in-place addition: the right operand must have the length of
  \<open>soln\<close> or length 1 (broadcast). The loop runs over the positions of \<open>kv\<close>;
  \<open>states[i]\<close> and \<open>fv[i]\<close> raise \<^verbatim>\<open>IndexError\<close> when the lists are shorter.
  \<open>py_int\<close> is Python's \<^verbatim>\<open>int\<close> on a float (truncation towards zero).
\<close>

definition idx :: int where
  "idx = 0"

definition recomb_phase :: "real \<Rightarrow> real \<Rightarrow> nat \<Rightarrow> error + complex" where
  "recomb_phase k wy ny =
     (if ny = 0 then Inl ZeroDivisionError
      else Inr (exp (\<i> * complex_of_real pi * complex_of_real k * complex_of_real wy / 2 * 2
                      * (of_nat ny / 2 + of_int idx) / of_nat ny)))"

definition iadd :: "complex list \<Rightarrow> complex list \<Rightarrow> error + complex list" where
  "iadd soln a =
     (if length a = length soln then Inr (map2 (+) soln a)
      else if length a = 1 then Inr (map (\<lambda>s. s + a ! 0) soln)
      else Inl ShapeMismatch)"

fun soln_loop ::
  "complex list list \<Rightarrow> complex list \<Rightarrow> real list \<Rightarrow> real \<Rightarrow> nat \<Rightarrow> nat list \<Rightarrow> complex list
     \<Rightarrow> error + complex list" where
  "soln_loop states fv kvs wy ny [] soln = Inr soln"
| "soln_loop states fv kvs wy ny (i # rest) soln =
     (if length states \<le> i \<or> length fv \<le> i then Inl IndexError
      else ebind (recomb_phase (kvs ! i) wy ny) (\<lambda>ph.
           ebind (iadd soln (map (\<lambda>s. s * complex_of_real (cmod (fv ! i)) * ph) (states ! i)))
             (soln_loop states fv kvs wy ny rest)))"

definition py_int :: "real \<Rightarrow> int" where
  "py_int x = (if 0 \<le> x then \<lfloor>x\<rfloor> else \<lceil>x\<rceil>)"

definition getitem :: "'a list \<Rightarrow> int \<Rightarrow> error + 'a" where
  "getitem xs i = ebind (py_index (length xs) i) (\<lambda>j. Inr (xs ! j))"

definition soln :: "nat \<Rightarrow> complex list list \<Rightarrow> complex list \<Rightarrow> real list \<Rightarrow> real \<Rightarrow> nat \<Rightarrow> real
     \<Rightarrow> real list \<Rightarrow> error + complex list" where
  "soln nx states fv kvs wy ny nrm y =
     ebind (soln_loop states fv kvs wy ny [0..<length kvs] (replicate nx 0)) (\<lambda>s.
     ebind (getitem y (py_int (real ny / 2 + real_of_int idx))) (\<lambda>ym.
     Inr (map (\<lambda>z. z * complex_of_real (exp ym)) (map (\<lambda>z. z * complex_of_real nrm) s))))"

definition soln_real :: "nat \<Rightarrow> complex list list \<Rightarrow> complex list \<Rightarrow> real list \<Rightarrow> real \<Rightarrow> nat \<Rightarrow> real
     \<Rightarrow> real list \<Rightarrow> error + real list" where
  "soln_real nx states fv kvs wy ny nrm y =
     ebind (soln nx states fv kvs wy ny nrm y) (\<lambda>s. Inr (map Re s))"

lemma soln_loop_append:
  "soln_loop states fv kvs wy ny (xs @ ys) s
     = ebind (soln_loop states fv kvs wy ny xs s) (soln_loop states fv kvs wy ny ys)"
proof (induction xs arbitrary: s)
  case Nil
  then show ?case by (simp add: ebind_def)
next
  case (Cons i xs)
  then show ?case by (simp add: ebind_def split: sum.splits)
qed

lemma recomb_phase_spec:
  "0 < ny \<Longrightarrow> recomb_phase k wy ny
     = Inr (exp (\<i> * complex_of_real (pi * k * (wy / 2) * 2 * (real ny / 2 + 0) / real ny)))"
  by (simp add: recomb_phase_def idx_def mult.assoc)

lemma soln_loop_sum:
  assumes len: "length states = length kvs" "length fv = length kvs"
    and st: "\<forall>st\<in>set states. length st = nx"
    and ny: "0 < ny"
    and m: "m \<le> length kvs"
  shows "soln_loop states fv kvs wy ny [0..<m] (replicate nx 0)
     = Inr (map (\<lambda>j. \<Sum>i<m. states ! i ! j * complex_of_real (cmod (fv ! i))
              * exp (\<i> * complex_of_real (pi * (kvs ! i) * (wy / 2) * 2 * (real ny / 2 + 0) / real ny)))
            [0..<nx])"
  using m
proof (induction m)
  case 0
  show ?case by (simp add: map_replicate_trivial)
next
  case (Suc m)
  then have m: "m < length kvs" by simp
  then have lst: "length (states ! m) = nx" using st len by simp
  have "soln_loop states fv kvs wy ny [0..<Suc m] (replicate nx 0)
      = ebind (soln_loop states fv kvs wy ny [0..<m] (replicate nx 0))
          (soln_loop states fv kvs wy ny [m])"
    by (simp only: upt_Suc_append [OF le0] soln_loop_append)
  also have "\<dots> = soln_loop states fv kvs wy ny [m]
       (map (\<lambda>j. \<Sum>i<m. states ! i ! j * complex_of_real (cmod (fv ! i))
              * exp (\<i> * complex_of_real (pi * (kvs ! i) * (wy / 2) * 2 * (real ny / 2 + 0) / real ny)))
            [0..<nx])"
    using Suc by (simp add: ebind_def)
  also have "\<dots> = Inr (map (\<lambda>j. \<Sum>i<Suc m. states ! i ! j * complex_of_real (cmod (fv ! i))
              * exp (\<i> * complex_of_real (pi * (kvs ! i) * (wy / 2) * 2 * (real ny / 2 + 0) / real ny)))
            [0..<nx])"
    using m len lst
    by (auto simp: ebind_def iadd_def recomb_phase_spec [OF ny] intro!: nth_equalityI)
  finally show ?case .
qed

text \<open>The recombination formula of the specification, at the evaluation offset 0.\<close>

definition ReconstructedSolution_spec ::
  "nat \<Rightarrow> complex list list \<Rightarrow> complex list \<Rightarrow> real list \<Rightarrow> real \<Rightarrow> nat \<Rightarrow> real \<Rightarrow> real list
     \<Rightarrow> real list" where
  "ReconstructedSolution_spec nx states c ks wy ny nrm y =
     map (\<lambda>j. Re (\<Sum>i<length ks. states ! i ! j * complex_of_real (cmod (c ! i))
                     * exp (\<i> * complex_of_real (pi * (ks ! i) * (wy / 2) * 2 * (real ny / 2 + 0) / real ny)))
               * nrm * exp (y ! (ny div 2)))
       [0..<nx]"

lemma getitem_mid:
  assumes "length y = ny" "0 < ny"
  shows "getitem y (py_int (real ny / 2 + real_of_int idx)) = Inr (y ! (ny div 2))"
proof -
  have "\<lfloor>real ny / real 2\<rfloor> = int (ny div 2)" by (rule floor_divide_of_nat_eq)
  then have "py_int (real ny / 2 + real_of_int idx) = int (ny div 2)"
    by (simp add: py_int_def idx_def)
  moreover have "ny div 2 < ny" using assms(2) by simp
  ultimately show ?thesis using assms(1) by (simp add: getitem_def py_index_def ebind_def)
qed

lemma soln_real_sum:
  assumes "length states = length kvs" "length fv = length kvs"
    and st: "\<forall>st\<in>set states. length st = nx"
    and "length y = ny" "0 < ny"
  shows "soln_real nx states fv kvs wy ny nrm y
     = Inr (ReconstructedSolution_spec nx states fv kvs wy ny nrm y)"
proof -
  have loop: "soln_loop states fv kvs wy ny [0..<length kvs] (replicate nx 0)
     = Inr (map (\<lambda>j. \<Sum>i<length kvs. states ! i ! j * complex_of_real (cmod (fv ! i))
              * exp (\<i> * complex_of_real (pi * (kvs ! i) * (wy / 2) * 2 * (real ny / 2 + 0) / real ny)))
            [0..<nx])"
    by (rule soln_loop_sum [OF assms(1,2) st assms(5) order_refl])
  show ?thesis
    unfolding soln_real_def soln_def loop getitem_mid [OF assms(4,5)] ReconstructedSolution_spec_def
    by (simp add: ebind_def comp_def)
qed

text \<open>
  Claim C3. For every list of evolved states aligned one-to-one with the frequency
  components \<open>(k\<^sub>i, c\<^sub>i)\<close>, each state of length \<open>nx\<close>, the reconstructed solution is
  \<open>Re (\<Sum>i. state\<^sub>i |c\<^sub>i| exp (\<i> \<pi> k\<^sub>i (wy/2) 2 (ny/2 + idx) / ny))\<close> times the initial
  field norm times \<open>exp (y[ny/2 + idx])\<close>, with the fixed offset \<open>idx = 0\<close>.
\<close>

theorem soln_recombination:
  assumes "length states = length kvs" "length fv = length kvs"
    and "list_all (\<lambda>st. length st = nx) states"
    and "length y = ny" "0 < ny"
  shows "soln_real nx states fv kvs wy ny nrm y
     = Inr (ReconstructedSolution_spec nx states fv kvs wy ny nrm y)"
proof -
  have "\<forall>st\<in>set states. length st = nx"
    using assms(3) by (simp add: list_all_iff)
  with assms(1,2) show ?thesis
    using assms(4,5) by (rule soln_real_sum)
qed

lemma exp_minus_i_pi: "exp (- (\<i> * complex_of_real pi)) = - 1"
  using cis_conv_exp [of "- pi"] cis_cnj [of pi] by simp

theorem soln_recombination_witness:
  "length [[1, 0], [0, 1 :: complex]] = length [0, - (1 / 4) :: real] \<and>
   length [3 / 2, - (1 / 2) :: complex] = length [0, - (1 / 4) :: real] \<and>
   list_all (\<lambda>st. length st = 2) [[1, 0], [0, 1 :: complex]] \<and>
   length [- (4 * pi), 0] = 2 \<and> (0::nat) < 2 \<and>
   soln_real 2 [[1, 0], [0, 1]] [3 / 2, - (1 / 2)] [0, - (1 / 4)] 8 2 5 [- (4 * pi), 0]
     = Inr [15 / 2, - (5 / 2)]"
  using soln_recombination [of "[[1, 0], [0, 1]]" "[0, - (1 / 4)]" "[3 / 2, - (1 / 2)]" 2
      "[- (4 * pi), 0]" 2 8 5]
  by (simp add: ReconstructedSolution_spec_def upt_rec numeral_2_eq_2 lessThan_Suc exp_minus_i_pi)

section \<open>Evolution operators\<close>

text \<open>
  \<^verbatim>\<open>linalg.expm\<close> is the matrix exponential. The library computes it in floating point;
  the model is the exponential series itself, entry by entry:
  \<open>expm A = \<Sum>m. A\<^sup>m / m!\<close>, with the matrix powers computed by the usual product.
\<close>

definition cidentity :: "nat \<Rightarrow> complex matrix" where
  "cidentity n = mk_mat n (\<lambda>i j. if i = j then 1 else 0)"

definition mat_mul :: "complex matrix \<Rightarrow> complex matrix \<Rightarrow> complex matrix" where
  "mat_mul A B = mk_mat (length A) (\<lambda>i j. \<Sum>l<length A. A ! i ! l * B ! l ! j)"

fun mat_pow :: "complex matrix \<Rightarrow> nat \<Rightarrow> complex matrix" where
  "mat_pow A 0 = cidentity (length A)"
| "mat_pow A (Suc m) = mat_mul A (mat_pow A m)"

definition expm :: "complex matrix \<Rightarrow> complex matrix" where
  "expm A = mk_mat (length A) (\<lambda>i j. \<Sum>m. mat_pow A m ! i ! j /\<^sub>R fact m)"

text \<open>
  The series converges for every square matrix, entry by entry: the entries of the
  \<open>m\<close>-th power are bounded by \<open>(n a)\<^sup>m\<close>, where \<open>a\<close> bounds the entries of the matrix.
  So \<open>expm\<close> is the limit of the partial sums of the exponential series.
\<close>

lemma is_mat_mat_pow: "is_mat n A \<Longrightarrow> is_mat n (mat_pow A m)"
  by (cases m) (simp_all add: cidentity_def mat_mul_def is_mat_def)

lemma mat_pow_bound:
  assumes A: "is_mat n A" and a: "\<And>i j. i < n \<Longrightarrow> j < n \<Longrightarrow> cmod (A ! i ! j) \<le> a"
    and ij: "i < n" "j < n"
  shows "cmod (mat_pow A m ! i ! j) \<le> (real n * a) ^ m"
  using ij
proof (induction m arbitrary: i j)
  case 0
  with A show ?case by (simp add: cidentity_def is_mat_def)
next
  case (Suc m)
  have len: "length A = n" using A by (simp add: is_mat_def)
  have "0 \<le> cmod (A ! i ! j)" by simp
  also have "\<dots> \<le> a" by (rule a [OF Suc.prems])
  finally have a0: "0 \<le> a" .
  have "cmod (mat_pow A (Suc m) ! i ! j) = cmod (\<Sum>l<n. A ! i ! l * mat_pow A m ! l ! j)"
    using Suc.prems by (simp add: mat_mul_def len)
  also have "\<dots> \<le> (\<Sum>l<n. cmod (A ! i ! l * mat_pow A m ! l ! j))"
    by (rule norm_sum)
  also have "\<dots> \<le> (\<Sum>l<n. a * (real n * a) ^ m)"
  proof (rule sum_mono)
    fix l assume "l \<in> {..<n}"
    then have l: "l < n" by simp
    have "cmod (A ! i ! l * mat_pow A m ! l ! j) = cmod (A ! i ! l) * cmod (mat_pow A m ! l ! j)"
      by (rule norm_mult)
    also have "\<dots> \<le> a * (real n * a) ^ m"
      by (rule mult_mono [OF a [OF Suc.prems(1) l] Suc.IH [OF l Suc.prems(2)] a0 norm_ge_zero])
    finally show "cmod (A ! i ! l * mat_pow A m ! l ! j) \<le> a * (real n * a) ^ m" .
  qed
  also have "\<dots> = (real n * a) ^ Suc m" by simp
  finally show ?case .
qed

lemma entry_le_total:
  fixes f :: "nat \<Rightarrow> nat \<Rightarrow> real"
  assumes nn: "\<And>p q. 0 \<le> f p q" and pq: "p < n" "q < n"
  shows "f p q \<le> (\<Sum>p<n. \<Sum>q<n. f p q)"
proof -
  have "f p q \<le> (\<Sum>q<n. f p q)"
    by (rule member_le_sum) (use pq nn in simp_all)
  also have "\<dots> \<le> (\<Sum>p<n. \<Sum>q<n. f p q)"
    by (rule member_le_sum [where f = "\<lambda>p. \<Sum>q<n. f p q"]) (use pq nn in \<open>simp_all add: sum_nonneg\<close>)
  finally show ?thesis .
qed

lemma expm_series_summable:
  assumes A: "is_mat n A" and ij: "i < n" "j < n"
  shows "summable (\<lambda>m. mat_pow A m ! i ! j /\<^sub>R fact m)"
proof -
  define a where "a = (\<Sum>p<n. \<Sum>q<n. cmod (A ! p ! q))"
  have a: "cmod (A ! p ! q) \<le> a" if "p < n" "q < n" for p q
    unfolding a_def by (rule entry_le_total [where f = "\<lambda>p q. cmod (A ! p ! q)"]) (use that in simp_all)
  have s: "summable (\<lambda>m. (real n * a) ^ m /\<^sub>R fact m)" by (rule summable_exp_generic)
  have b: "norm (mat_pow A m ! i ! j /\<^sub>R fact m) \<le> (real n * a) ^ m /\<^sub>R fact m" for m
  proof -
    have "norm (mat_pow A m ! i ! j /\<^sub>R fact m) = cmod (mat_pow A m ! i ! j) / fact m"
      by (simp add: divide_inverse mult.commute)
    also have "\<dots> \<le> (real n * a) ^ m / fact m"
      by (rule divide_right_mono [OF mat_pow_bound [OF A a ij]]) simp_all
    also have "\<dots> = (real n * a) ^ m /\<^sub>R fact m"
      by (simp add: divide_inverse mult.commute)
    finally show ?thesis .
  qed
  show ?thesis
    by (rule summable_comparison_test' [OF s, of 0]) (rule b)
qed

lemma expm_entry_sums:
  assumes "is_mat n A" "i < n" "j < n"
  shows "(\<lambda>m. mat_pow A m ! i ! j /\<^sub>R fact m) sums (expm A ! i ! j)"
proof -
  have "length A = n" using assms(1) by (simp add: is_mat_def)
  then have "expm A ! i ! j = (\<Sum>m. mat_pow A m ! i ! j /\<^sub>R fact m)"
    using assms(2,3) by (simp add: expm_def)
  then show ?thesis
    using expm_series_summable [OF assms] by (simp add: summable_sums)
qed

subsection \<open>Appending an operator to a circuit\<close>

text \<open>
  \<^verbatim>\<open>qc.append(Operator(U), qr)\<close> on a register of \<open>nq\<close> qubits: the operator must
  act on the register, that is, be a \<open>2 ^ nq\<close> by \<open>2 ^ nq\<close> matrix. The library also
  requires the matrix to be unitary, up to a tolerance. Both scripts pass the
  exponential of an anti-Hermitian matrix (\<open>generator_entry_antihermitian\<close> below for
  the finite-difference variant, \<open>\<i>\<close> times a real diagonal for the spectral one),
  which is unitary, so the model carries the size check only.
\<close>

definition append_operator :: "nat \<Rightarrow> complex matrix \<Rightarrow> instr list \<Rightarrow> error + instr list" where
  "append_operator nq U qc =
     (if length U = 2 ^ nq \<and> list_all (\<lambda>row. length row = 2 ^ nq) U
      then Inr (qc @ [Unitary U]) else Inl QiskitError)"

lemma append_operator_ok:
  assumes "is_mat (2 ^ nq) U"
  shows "append_operator nq U qc = Inr (qc @ [Unitary U])"
proof -
  have l: "length U = 2 ^ nq" using assms by (simp add: is_mat_def)
  have "\<forall>i<length U. length (U ! i) = 2 ^ nq" using assms by (simp add: is_mat_def)
  then have "list_all (\<lambda>row. length row = 2 ^ nq) U" by (simp only: list_all_length)
  with l show ?thesis by (simp add: append_operator_def)
qed

lemma is_mat_expm: "is_mat (length A) (expm A)"
  by (simp add: expm_def)

text \<open>
  The entries of \<open>expm G\<close> without reference to the definitions above: the matrix
  powers \<open>P m\<close> of \<open>G\<close> are given by \<open>P 0 = I\<close> and \<open>P (m + 1) = G P m\<close>, and every
  entry of \<open>expm G\<close> is the limit of the partial sums of \<open>P m / m!\<close>.
\<close>

lemma expm_power_series:
  assumes G: "is_mat n G"
  shows "\<exists>P. (\<forall>i<n. \<forall>j<n. P 0 i j = (if i = j then 1 else 0)) \<and>
     (\<forall>m. \<forall>i<n. \<forall>j<n. P (Suc m) i j = (\<Sum>l<n. G ! i ! l * P m l j)) \<and>
     (\<forall>i<n. \<forall>j<n. (\<lambda>m. P m i j /\<^sub>R fact m) sums (expm G ! i ! j))"
proof (intro exI [of _ "\<lambda>m i j. mat_pow G m ! i ! j"] conjI allI impI)
  have len: "length G = n" using G by (simp add: is_mat_def)
  fix i j assume ij: "i < n" "j < n"
  show "mat_pow G 0 ! i ! j = (if i = j then 1 else 0)"
    using ij by (simp add: cidentity_def len)
  show "mat_pow G (Suc m) ! i ! j = (\<Sum>l<n. G ! i ! l * mat_pow G m ! l ! j)" for m
    using ij by (simp add: mat_mul_def len)
  show "(\<lambda>m. mat_pow G m ! i ! j /\<^sub>R fact m) sums (expm G ! i ! j)"
    by (rule expm_entry_sums [OF G ij])
qed

subsection \<open>Finite-difference variant\<close>

text \<open>
  \<^verbatim>\<open>
  M = 1.j*k*H1 - H2
  U = linalg.expm(M*t)
  qc.append(circ_init_u_inst, qr); qc.barrier(); qc.append(Operator(U), qr)
  \<close>
\<close>

definition M_gen :: "real \<Rightarrow> real matrix \<Rightarrow> complex matrix" where
  "M_gen k A =
     mat_sub (map (map (\<lambda>h. \<i> * complex_of_real k * complex_of_real h)) (H1 A))
             (map (map complex_of_real) (H2 A))"

definition U_fd :: "real \<Rightarrow> real \<Rightarrow> real matrix \<Rightarrow> complex matrix" where
  "U_fd k t A = expm (map (map (\<lambda>m. m * complex_of_real t)) (M_gen k A))"

definition qc_fd ::
  "nat \<Rightarrow> real list \<Rightarrow> complex \<Rightarrow> real \<Rightarrow> real \<Rightarrow> real matrix \<Rightarrow> error + instr list" where
  "qc_fd nq u c k t A =
     ebind (circ_init nq u c) (\<lambda>ini.
     append_operator nq (U_fd k t A) [ini, Barrier])"

text \<open>
  The generator of the specification, \<open>G = \<i> k H1 - H2\<close>, entry by entry, with the
  Hermitian part \<open>(A + A\<^sup>*) / 2\<close> and the anti-Hermitian part \<open>(A - A\<^sup>*) / 2\<close> of the
  real matrix \<open>A\<close> written out.
\<close>

definition generator_entry :: "real \<Rightarrow> real matrix \<Rightarrow> nat \<Rightarrow> nat \<Rightarrow> complex" where
  "generator_entry k A i j =
     \<i> * complex_of_real k * complex_of_real ((A ! i ! j + A ! j ! i) / 2)
       - complex_of_real ((A ! i ! j - A ! j ! i) / 2)"

lemma generator_entry_antihermitian:
  "cnj (generator_entry k A j i) = - generator_entry k A i j"
  by (simp add: generator_entry_def complex_eq_iff add.commute diff_divide_distrib)

lemma is_mat_M_gen [simp]: "is_mat n A \<Longrightarrow> is_mat n (M_gen k A)"
  by (simp add: M_gen_def)

lemma M_gen_nth:
  assumes "is_mat n A" "i < n" "j < n"
  shows "M_gen k A ! i ! j = generator_entry k A i j"
proof -
  have h: "is_mat n (H1 A)" "is_mat n (H2 A)" using assms(1) by simp_all
  show ?thesis
    using assms h
    by (simp add: M_gen_def generator_entry_def mat_sub_nth [where n = n]
        map_map_nth [where n = n] H1_nth [where n = n] H2_nth [where n = n])
qed

lemma is_mat_U_fd: "is_mat n A \<Longrightarrow> is_mat n (U_fd k t A)"
proof -
  assume A: "is_mat n A"
  have "is_mat n (map (map (\<lambda>m. m * complex_of_real t)) (M_gen k A))" using A by simp
  then have "length (map (map (\<lambda>m. m * complex_of_real t)) (M_gen k A)) = n"
    by (simp add: is_mat_def)
  then show ?thesis
    unfolding U_fd_def using is_mat_expm [of "map (map (\<lambda>m. m * complex_of_real t)) (M_gen k A)"]
    by simp
qed

lemma A_fd_is_mat:
  assumes "A_fd nx dx C D S = Inr A"
  shows "is_mat nx A"
proof -
  have n: "0 < nx"
  proof (rule ccontr)
    assume "\<not> 0 < nx"
    then have "AC nx C dx = Inl IndexError"
      by (simp add: AC_def AC_loop_def zeros2_def setitem_py_def py_index_def ebind_def)
    with assms show False by (simp add: A_fd_def ebind_def)
  qed
  have d: "dx \<noteq> 0"
  proof
    assume z: "dx = 0"
    have "is_mat nx (AC_loop nx (zeros2 nx nx))"
      unfolding AC_loop_def using band_loop [of nx "zeros2 nx nx" "nx - 1"] by simp
    then have "AC nx C dx = Inl InvalidValue"
      using n z
      by (simp add: AC_def setitem_py_corner0 [where n = nx] setitem_py_corner1 [where n = nx]
          ebind_def scale_div_def)
    with assms show False by (simp add: A_fd_def ebind_def)
  qed
  from assms show ?thesis
    by (auto simp: A_fd_def AC_entries [OF n d] AD_entries [OF n d] ebind_def AS_entries)
qed

text \<open>
  Claim C4. In the finite-difference variant, for every frequency \<open>k\<close> (with a nonzero
  coefficient, on a register of \<open>nq > 0\<close> qubits holding the normalised field) and
  every time \<open>t\<close>, the circuit handed to the backend prepares the state and then
  applies the operator \<open>U\<close>, and \<open>U\<close> is the matrix exponential \<open>exp (G t)\<close> of the
  generator \<open>G = \<i> k H1 - H2\<close>: with the powers \<open>P 0 = I\<close>, \<open>P (m + 1) = (G t) P m\<close>,
  every entry of \<open>U\<close> is the sum of the series \<open>\<Sum>m. P m / m!\<close>.
\<close>

theorem U_fd_generator:
  assumes A: "A_fd (2 ^ nq) dx C D S = Inr A"
    and nq: "0 < nq" and u: "u0 u_init = Inr u" "length u_init = 2 ^ nq" and c: "c \<noteq> 0"
  shows "qc_fd nq u c k t A
           = Inr [Initialize (map (\<lambda>x. complex_of_real x * phase_factor c) u), Barrier,
                  Unitary (U_fd k t A)] \<and>
         (\<exists>P. (\<forall>i<2 ^ nq. \<forall>j<2 ^ nq. P 0 i j = (if i = j then 1 else 0)) \<and>
              (\<forall>m. \<forall>i<2 ^ nq. \<forall>j<2 ^ nq.
                 P (Suc m) i j
                   = (\<Sum>l<2 ^ nq. generator_entry k A i l * complex_of_real t * P m l j)) \<and>
              (\<forall>i<2 ^ nq. \<forall>j<2 ^ nq. (\<lambda>m. P m i j /\<^sub>R fact m) sums (U_fd k t A ! i ! j)))"
proof -
  let ?n = "2 ^ nq :: nat"
  let ?G = "map (map (\<lambda>m. m * complex_of_real t)) (M_gen k A)"
  have mA: "is_mat ?n A" by (rule A_fd_is_mat [OF A])
  have mG: "is_mat ?n ?G" using mA by simp
  have G: "?G ! i ! l = generator_entry k A i l * complex_of_real t" if "i < ?n" "l < ?n" for i l
    using that mA by (simp add: map_map_nth [where n = ?n] M_gen_nth [where n = ?n])
  have qc: "qc_fd nq u c k t A
      = Inr [Initialize (map (\<lambda>x. complex_of_real x * phase_factor c) u), Barrier,
             Unitary (U_fd k t A)]"
    by (simp add: qc_fd_def circ_init_prepared(1) [OF u(1) nq u(2) c] ebind_def
        append_operator_ok [OF is_mat_U_fd [OF mA]])
  from expm_power_series [OF mG] obtain P where
    P: "(\<forall>i<?n. \<forall>j<?n. P 0 i j = (if i = j then 1 else 0)) \<and>
        (\<forall>m. \<forall>i<?n. \<forall>j<?n. P (Suc m) i j = (\<Sum>l<?n. ?G ! i ! l * P m l j)) \<and>
        (\<forall>i<?n. \<forall>j<?n. (\<lambda>m. P m i j /\<^sub>R fact m) sums (expm ?G ! i ! j))" ..
  note P0 = P [THEN conjunct1]
  note PS = P [THEN conjunct2, THEN conjunct1, rule_format]
  note Ps = P [THEN conjunct2, THEN conjunct2]
  have step: "P (Suc m) i j = (\<Sum>l<?n. generator_entry k A i l * complex_of_real t * P m l j)"
    if ij: "i < ?n" "j < ?n" for m i j
  proof -
    have "P (Suc m) i j = (\<Sum>l<?n. ?G ! i ! l * P m l j)" by (rule PS [OF ij])
    also have "\<dots> = (\<Sum>l<?n. generator_entry k A i l * complex_of_real t * P m l j)"
      by (rule sum.cong [OF refl]) (simp add: G [OF ij(1)])
    finally show ?thesis .
  qed
  have "\<exists>P. (\<forall>i<?n. \<forall>j<?n. P 0 i j = (if i = j then 1 else 0)) \<and>
      (\<forall>m. \<forall>i<?n. \<forall>j<?n.
         P (Suc m) i j = (\<Sum>l<?n. generator_entry k A i l * complex_of_real t * P m l j)) \<and>
      (\<forall>i<?n. \<forall>j<?n. (\<lambda>m. P m i j /\<^sub>R fact m) sums (U_fd k t A ! i ! j))"
  proof (intro exI [of _ P] conjI)
    show "\<forall>i<?n. \<forall>j<?n. P 0 i j = (if i = j then 1 else 0)" by (rule P0)
    show "\<forall>m. \<forall>i<?n. \<forall>j<?n.
        P (Suc m) i j = (\<Sum>l<?n. generator_entry k A i l * complex_of_real t * P m l j)"
      by (intro allI impI step)
    show "\<forall>i<?n. \<forall>j<?n. (\<lambda>m. P m i j /\<^sub>R fact m) sums (U_fd k t A ! i ! j)"
      unfolding U_fd_def by (rule Ps)
  qed
  with qc show ?thesis by (rule conjI)
qed

lemma A_fd_two_points: "A_fd (2 ^ 1) 1 4 1 (- (1 / 5)) = Inr [[11 / 5, - 3], [1, 11 / 5]]"
  by code_simp

lemma H_parts_two_points:
  "H1 [[11 / 5, - 3], [1, 11 / 5]] = [[11 / 5, - 1], [- 1, 11 / 5]]"
  "H2 [[11 / 5, - 3], [1, 11 / 5]] = [[0, - 2], [2, 0]]"
  by code_simp+

theorem U_fd_generator_witness:
  "A_fd (2 ^ 1) 1 4 1 (- (1 / 5)) = Inr [[11 / 5, - 3], [1, 11 / 5]] \<and>
   (0::nat) < 1 \<and> u0 [3, 4] = Inr [3 / 5, 4 / 5] \<and> length [3, 4 :: real] = 2 ^ 1 \<and>
   (- (1 / 2) :: complex) \<noteq> 0 \<and>
   H1 [[11 / 5, - 3], [1, 11 / 5]] = [[11 / 5, - 1], [- 1, 11 / 5]] \<and>
   H2 [[11 / 5, - 3], [1, 11 / 5]] = [[0, - 2], [2, 0]] \<and>
   qc_fd 1 [3 / 5, 4 / 5] (- (1 / 2)) (1 / 4) (1 / 10) [[11 / 5, - 3], [1, 11 / 5]]
     = Inr [Initialize [- (3 / 5), - (4 / 5)], Barrier,
            Unitary (U_fd (1 / 4) (1 / 10) [[11 / 5, - 3], [1, 11 / 5]])] \<and>
   (\<exists>P. (\<forall>i<2 ^ 1. \<forall>j<2 ^ 1. P 0 i j = (if i = j then 1 else 0)) \<and>
        (\<forall>m. \<forall>i<2 ^ 1. \<forall>j<2 ^ 1.
           P (Suc m) i j
             = (\<Sum>l<2 ^ 1. generator_entry (1 / 4) [[11 / 5, - 3], [1, 11 / 5]] i l
                  * complex_of_real (1 / 10) * P m l j)) \<and>
        (\<forall>i<2 ^ 1. \<forall>j<2 ^ 1.
           (\<lambda>m. P m i j /\<^sub>R fact m)
             sums (U_fd (1 / 4) (1 / 10) [[11 / 5, - 3], [1, 11 / 5]] ! i ! j)))"
proof -
  have h: "(0::nat) < 1" "length [3, 4 :: real] = 2 ^ 1" "(- (1 / 2) :: complex) \<noteq> 0"
    by simp_all
  have p: "phase_factor (- (1 / 2)) = - 1" by (simp add: phase_factor_def norm_divide)
  note th = U_fd_generator [OF A_fd_two_points h(1) u0_34 h(2,3), of "1 / 4" "1 / 10"]
  from th have q: "qc_fd 1 [3 / 5, 4 / 5] (- (1 / 2)) (1 / 4) (1 / 10) [[11 / 5, - 3], [1, 11 / 5]]
     = Inr [Initialize [- (3 / 5), - (4 / 5)], Barrier,
            Unitary (U_fd (1 / 4) (1 / 10) [[11 / 5, - 3], [1, 11 / 5]])]"
    by (simp add: p)
  from th have e: "\<exists>P. (\<forall>i<2 ^ 1. \<forall>j<2 ^ 1. P 0 i j = (if i = j then 1 else 0)) \<and>
        (\<forall>m. \<forall>i<2 ^ 1. \<forall>j<2 ^ 1.
           P (Suc m) i j
             = (\<Sum>l<2 ^ 1. generator_entry (1 / 4) [[11 / 5, - 3], [1, 11 / 5]] i l
                  * complex_of_real (1 / 10) * P m l j)) \<and>
        (\<forall>i<2 ^ 1. \<forall>j<2 ^ 1.
           (\<lambda>m. P m i j /\<^sub>R fact m)
             sums (U_fd (1 / 4) (1 / 10) [[11 / 5, - 3], [1, 11 / 5]] ! i ! j))"
    by (rule conjunct2)
  show ?thesis
    by (intro conjI A_fd_two_points h u0_34 H_parts_two_points q e)
qed

subsection \<open>Spectral variant\<close>

text \<open>
  \<^verbatim>\<open>
  kx = fft.fftfreq(nx)*nx*2*np.pi/L
  H = np.diag(C*kx+D*k*np.square(kx)-S*k)
  U = linalg.expm(1.j*H*time)
  qc.append(circ_init_inst, qr); qc.barrier(); qc.append(circ_QFT, qr); qc.barrier()
  qc.append(Operator(U), qr); qc.barrier(); qc.append(circ_IQFT, qr); qc.barrier()
  qc.save_statevector()
  \<close>
\<close>

definition kx :: "nat \<Rightarrow> real \<Rightarrow> error + real list" where
  "kx nx L =
     ebind (fftfreq nx) (\<lambda>f.
     if L = 0 then Inl InvalidValue else Inr (map (\<lambda>x. x * real nx * 2 * pi / L) f))"

definition diag :: "real list \<Rightarrow> real matrix" where
  "diag d = mk_mat (length d) (\<lambda>i j. if i = j then d ! i else 0)"

definition H_spectral :: "real \<Rightarrow> real \<Rightarrow> real \<Rightarrow> real \<Rightarrow> real list \<Rightarrow> real matrix" where
  "H_spectral C D S k kxs = diag (map (\<lambda>\<kappa>. C * \<kappa> + D * k * \<kappa>\<^sup>2 - S * k) kxs)"

definition U_spectral :: "real \<Rightarrow> real \<Rightarrow> real \<Rightarrow> real \<Rightarrow> real \<Rightarrow> real list \<Rightarrow> complex matrix" where
  "U_spectral C D S k time kxs =
     expm (map (map (\<lambda>h. \<i> * complex_of_real h * complex_of_real time)) (H_spectral C D S k kxs))"

definition qc_spectral ::
  "nat \<Rightarrow> real list \<Rightarrow> complex \<Rightarrow> real \<Rightarrow> real \<Rightarrow> real \<Rightarrow> real \<Rightarrow> real \<Rightarrow> real list \<Rightarrow> error + instr list" where
  "qc_spectral nq u c C D S k time kxs =
     ebind (circ_init nq u c) (\<lambda>ini.
     ebind (append_operator nq (U_spectral C D S k time kxs) [ini, Barrier, QFT nq, Barrier]) (\<lambda>qc.
     Inr (qc @ [Barrier, IQFT nq, Barrier, SaveStatevector])))"

lemma sum_delta_row:
  fixes a :: complex and i n :: nat
  assumes "i < n"
  shows "(\<Sum>l<n. (if i = l then a else 0) * g l) = a * g i"
proof -
  have "(\<Sum>l<n. (if i = l then a else 0) * g l) = (\<Sum>l<n. if l = i then a * g l else 0)"
    by (rule sum.cong) auto
  also have "\<dots> = a * g i" using assms by (simp add: sum.delta)
  finally show ?thesis .
qed

lemma mat_pow_diag:
  "mat_pow (mk_mat n (\<lambda>i j. if i = j then d i else 0)) m
     = mk_mat n (\<lambda>i j. if i = j then d i ^ m else 0)"
proof (induction m)
  case 0
  show ?case by (simp add: cidentity_def cong: if_cong)
next
  case (Suc m)
  show ?case
    unfolding mat_pow.simps Suc
    by (rule mat_eqI [where n = n]) (simp_all add: mat_mul_def is_mat_def sum_delta_row)
qed

lemma expm_diag:
  "expm (mk_mat n (\<lambda>i j. if i = j then d i else 0))
     = mk_mat n (\<lambda>i j. if i = j then exp (d i) else 0)"
  by (rule mat_eqI [where n = n]) (simp_all add: expm_def mat_pow_diag exp_def is_mat_def)

lemma kx_bins:
  assumes "0 < nx" "L \<noteq> 0"
  shows "kx nx L = Inr (map (\<lambda>a. real_of_int (fft_bin nx a) * (2 * pi / L)) [0..<nx])"
proof -
  have "map (\<lambda>x. x * real nx * 2 * pi / L)
          (map (\<lambda>r. real_of_int r * (1 / real nx)) (map (fft_bin nx) [0..<nx]))
      = map (\<lambda>a. real_of_int (fft_bin nx a) * (2 * pi / L)) [0..<nx]"
    using assms by (simp add: comp_def)
  then show ?thesis
    using assms unfolding kx_def fftfreq_def ebind_def fftfreq_bins [OF assms(1)] by simp
qed

lemma U_spectral_diag:
  "U_spectral C D S k time kxs
     = mk_mat (length kxs) (\<lambda>a b. if a = b
         then exp (\<i> * complex_of_real ((C * kxs ! a + D * k * (kxs ! a)\<^sup>2 - S * k) * time)) else 0)"
proof -
  let ?n = "length kxs"
  have "map (map (\<lambda>h. \<i> * complex_of_real h * complex_of_real time)) (H_spectral C D S k kxs)
      = mk_mat ?n (\<lambda>a b. if a = b
          then \<i> * complex_of_real ((C * kxs ! a + D * k * (kxs ! a)\<^sup>2 - S * k) * time) else 0)"
    by (rule mat_eqI [where n = ?n])
       (simp_all add: H_spectral_def diag_def map_map_nth [where n = ?n])
  then show ?thesis by (simp add: U_spectral_def expm_diag)
qed


text \<open>
  Claim C5. In the spectral variant, for every outer frequency \<open>k\<close> (with a nonzero
  coefficient, on a register of \<open>nq > 0\<close> qubits holding the normalised field), the
  operator placed between the forward and the inverse transform is diagonal; its entry
  at the spatial wavenumber \<open>\<kappa>\<close> (the integer frequency bin times \<open>2 \<pi> / L\<close>) is the
  phase \<open>exp (\<i> (C \<kappa> + D k \<kappa>\<^sup>2 - S k) t)\<close>. It is computed from the diagonal directly;
  no Hermitian split takes part.
\<close>

theorem spectral_operator_diagonal:
  assumes nq: "0 < nq" and L: "L \<noteq> 0"
    and u: "u0 u_init = Inr u" "length u_init = 2 ^ nq" and c: "c \<noteq> 0"
  shows "\<exists>kxs. kx (2 ^ nq) L = Inr kxs \<and>
     kxs = map (\<lambda>a. real_of_int (fft_bin (2 ^ nq) a) * (2 * pi / L)) [0..<2 ^ nq] \<and>
     qc_spectral nq u c C D S k time kxs
       = Inr [Initialize (map (\<lambda>x. complex_of_real x * phase_factor c) u), Barrier, QFT nq, Barrier,
              Unitary (mk_mat (2 ^ nq) (\<lambda>a b. if a = b
                then exp (\<i> * complex_of_real ((C * kxs ! a + D * k * (kxs ! a)\<^sup>2 - S * k) * time))
                else 0)),
              Barrier, IQFT nq, Barrier, SaveStatevector]"
proof -
  define kxs where "kxs = map (\<lambda>a. real_of_int (fft_bin (2 ^ nq) a) * (2 * pi / L)) [0..<2 ^ nq]"
  have k: "kx (2 ^ nq) L = Inr kxs" unfolding kxs_def by (rule kx_bins) (use L in simp_all)
  have len: "length kxs = 2 ^ nq" by (simp add: kxs_def)
  have "is_mat (2 ^ nq) (U_spectral C D S k time kxs)"
    by (simp add: U_spectral_diag len)
  then have app: "append_operator nq (U_spectral C D S k time kxs) qc
      = Inr (qc @ [Unitary (U_spectral C D S k time kxs)])" for qc
    by (rule append_operator_ok)
  have "qc_spectral nq u c C D S k time kxs
       = Inr [Initialize (map (\<lambda>x. complex_of_real x * phase_factor c) u), Barrier, QFT nq, Barrier,
              Unitary (mk_mat (2 ^ nq) (\<lambda>a b. if a = b
                then exp (\<i> * complex_of_real ((C * kxs ! a + D * k * (kxs ! a)\<^sup>2 - S * k) * time))
                else 0)),
              Barrier, IQFT nq, Barrier, SaveStatevector]"
    by (simp add: qc_spectral_def circ_init_prepared(1) [OF u(1) nq u(2) c] ebind_def app)
       (simp add: U_spectral_diag len)
  with k show ?thesis unfolding kxs_def [symmetric] by blast
qed

theorem spectral_operator_diagonal_witness:
  "(0::nat) < 1 \<and> 2 * pi \<noteq> 0 \<and> u0 [3, 4] = Inr [3 / 5, 4 / 5] \<and>
   length [3, 4 :: real] = 2 ^ 1 \<and> (- (1 / 2) :: complex) \<noteq> 0 \<and>
   kx (2 ^ 1) (2 * pi) = Inr [0, - 1] \<and>
   qc_spectral 1 [3 / 5, 4 / 5] (- (1 / 2)) 4 1 (- (1 / 5)) (1 / 4) (3 / 10) [0, - 1]
     = Inr [Initialize [- (3 / 5), - (4 / 5)], Barrier, QFT 1, Barrier,
            Unitary [[exp (\<i> * complex_of_real (3 / 200)), 0],
                     [0, exp (\<i> * complex_of_real (- (111 / 100)))]],
            Barrier, IQFT 1, Barrier, SaveStatevector]"
proof -
  have h: "(0::nat) < 1" "2 * pi \<noteq> 0" "length [3, 4 :: real] = 2 ^ 1" "(- (1 / 2) :: complex) \<noteq> 0"
    by simp_all
  have p: "phase_factor (- (1 / 2)) = - 1" by (simp add: phase_factor_def norm_divide)
  have ks: "map (\<lambda>a. real_of_int (fft_bin (2 ^ 1) a) * (2 * pi / (2 * pi))) [0..<2 ^ 1] = [0, - 1]"
    by (simp add: fft_bin_def upt_rec numeral_2_eq_2)
  have m: "mk_mat (2 ^ 1) (\<lambda>a b. if a = b
      then exp (\<i> * complex_of_real
             ((4 * [0, - 1] ! a + 1 * (1 / 4) * ([0, - 1] ! a)\<^sup>2 - - (1 / 5) * (1 / 4)) * (3 / 10)))
      else 0)
    = [[exp (\<i> * complex_of_real (3 / 200)), 0], [0, exp (\<i> * complex_of_real (- (111 / 100)))]]"
    by (simp add: mk_mat_def upt_rec numeral_2_eq_2)
  from spectral_operator_diagonal [OF h(1,2) u0_34 h(3,4), of 4 1 "- (1 / 5)" "1 / 4" "3 / 10"]
  obtain kxs where k1: "kx (2 ^ 1) (2 * pi) = Inr kxs"
    and k2: "kxs = map (\<lambda>a. real_of_int (fft_bin (2 ^ 1) a) * (2 * pi / (2 * pi))) [0..<2 ^ 1]"
    and q: "qc_spectral 1 [3 / 5, 4 / 5] (- (1 / 2)) 4 1 (- (1 / 5)) (1 / 4) (3 / 10) kxs
       = Inr [Initialize (map (\<lambda>x. complex_of_real x * phase_factor (- (1 / 2))) [3 / 5, 4 / 5]),
              Barrier, QFT 1, Barrier,
              Unitary (mk_mat (2 ^ 1) (\<lambda>a b. if a = b
                then exp (\<i> * complex_of_real
                       ((4 * kxs ! a + 1 * (1 / 4) * (kxs ! a)\<^sup>2 - - (1 / 5) * (1 / 4)) * (3 / 10)))
                else 0)),
              Barrier, IQFT 1, Barrier, SaveStatevector]"
    by blast
  have kxs: "kxs = [0, - 1]" unfolding k2 by (rule ks)
  have "qc_spectral 1 [3 / 5, 4 / 5] (- (1 / 2)) 4 1 (- (1 / 5)) (1 / 4) (3 / 10) [0, - 1]
     = Inr [Initialize [- (3 / 5), - (4 / 5)], Barrier, QFT 1, Barrier,
            Unitary [[exp (\<i> * complex_of_real (3 / 200)), 0],
                     [0, exp (\<i> * complex_of_real (- (111 / 100)))]],
            Barrier, IQFT 1, Barrier, SaveStatevector]"
    using q unfolding kxs m by (simp add: p)
  with k1 h u0_34 show ?thesis unfolding kxs by simp
qed

section \<open>The finite-difference script for one time sample\<close>

text \<open>
  \<^verbatim>\<open>
  nq = 8
  qr = QuantumRegister(nq, name='qr')
  nx = 2 ** nq
  x = np.linspace(-L/2, L/2, num=nx, endpoint=False)
  dx = L / nx
  u_init = np.zeros(x.size)
  for k in k_s: u_init = u_init + np.sin(k*x)
  for k in k_c: u_init = u_init + np.cos(k*x)
  \<close>
  The grid size is derived from the register size. \<^verbatim>\<open>L / nx\<close> divides Python
  numbers, so \<open>nx = 0\<close> would raise.
\<close>

definition x_grid :: "real \<Rightarrow> nat \<Rightarrow> real list" where
  "x_grid L nx = linspace_open (- L / 2) (L / 2) nx"

definition dx :: "real \<Rightarrow> nat \<Rightarrow> error + real" where
  "dx L nx = (if nx = 0 then Inl ZeroDivisionError else Inr (L / real nx))"

definition u_init :: "real list \<Rightarrow> real list \<Rightarrow> real list \<Rightarrow> real list" where
  "u_init k_s k_c x =
     map (\<lambda>xi. foldl (\<lambda>acc k. acc + cos (k * xi)) (foldl (\<lambda>acc k. acc + sin (k * xi)) 0 k_s) k_c) x"

text \<open>
  The noiseless backend: the state vector after the circuit, starting from the basis
  state \<open>|0\<dots>0\<rangle>\<close>. An initialisation sets the amplitudes, a unitary multiplies the
  state, barriers and the save instruction leave it unchanged; the Fourier transform
  circuit and its inverse act as the unitary discrete Fourier transform with the
  positive, respectively negative, exponent.
\<close>

definition mat_vec :: "complex matrix \<Rightarrow> complex list \<Rightarrow> complex list" where
  "mat_vec U st = map (\<lambda>row. \<Sum>l<length st. row ! l * st ! l) U"

definition qft_apply :: "bool \<Rightarrow> complex list \<Rightarrow> complex list" where
  "qft_apply backward st =
     (let N = length st
      in map (\<lambda>k. (\<Sum>j<N. st ! j * cis ((if backward then - 1 else 1) * (2 * pi * real j * real k / real N)))
                    / complex_of_real (sqrt (real N)))
           [0..<N])"

fun apply_instr :: "instr \<Rightarrow> complex list \<Rightarrow> complex list" where
  "apply_instr (Initialize st) psi = st"
| "apply_instr Barrier psi = psi"
| "apply_instr (QFT nq) psi = qft_apply False psi"
| "apply_instr (IQFT nq) psi = qft_apply True psi"
| "apply_instr (Unitary U) psi = mat_vec U psi"
| "apply_instr SaveStatevector psi = psi"

definition get_statevector :: "nat \<Rightarrow> instr list \<Rightarrow> complex list" where
  "get_statevector nx qc = fold apply_instr qc (1 # replicate (nx - 1) 0)"

text \<open>
  The loop \<^verbatim>\<open>for i, k in enumerate(kv)\<close> that builds and runs one circuit per
  frequency and collects the state vectors, and the whole script for one time \<open>t\<close>:
  the column \<^verbatim>\<open>results[:,j]\<close>.
\<close>

fun states_loop ::
  "nat \<Rightarrow> real list \<Rightarrow> complex list \<Rightarrow> real list \<Rightarrow> real \<Rightarrow> real matrix \<Rightarrow> nat list
     \<Rightarrow> error + complex list list" where
  "states_loop nq u fv kvs t A [] = Inr []"
| "states_loop nq u fv kvs t A (i # rest) =
     (if length fv \<le> i then Inl IndexError
      else ebind (qc_fd nq u (fv ! i) (kvs ! i) t A) (\<lambda>qc.
           ebind (states_loop nq u fv kvs t A rest) (\<lambda>sts.
           Inr (get_statevector (2 ^ nq) qc # sts))))"

definition results_column ::
  "real list \<Rightarrow> real list \<Rightarrow> real \<Rightarrow> nat \<Rightarrow> real \<Rightarrow> real \<Rightarrow> real \<Rightarrow> real \<Rightarrow> real \<Rightarrow> real \<Rightarrow> real \<Rightarrow> nat
     \<Rightarrow> real \<Rightarrow> error + real list" where
  "results_column k_s k_c L nq C D S wy shift alpha bzone ny t =
     (let nx = 2 ^ nq in
     ebind (dx L nx) (\<lambda>d.
     ebind (u0 (u_init k_s k_c (x_grid L nx))) (\<lambda>u.
     ebind (v_init wy shift alpha bzone (y_axis wy shift ny)) (\<lambda>v.
     ebind (fft_forward v) (\<lambda>fv.
     ebind (kv ny wy) (\<lambda>kvs.
     ebind (A_fd nx d C D S) (\<lambda>A.
     ebind (states_loop nq u fv kvs t A [0..<length kvs]) (\<lambda>states.
     soln_real nx states fv kvs wy ny (u_init_norm (u_init k_s k_c (x_grid L nx)))
       (y_axis wy shift ny)))))))))"

subsection \<open>Identity evolution at time zero\<close>

lemma mat_pow_zero_Suc:
  assumes "is_mat n Z" "\<And>i j. i < n \<Longrightarrow> j < n \<Longrightarrow> Z ! i ! j = 0"
  shows "mat_pow Z (Suc m) = mk_mat n (\<lambda>i j. 0)"
proof (rule mat_eqI [where n = n])
  show "is_mat n (mat_pow Z (Suc m))" using assms(1) by (simp add: mat_mul_def is_mat_def)
  show "is_mat n (mk_mat n (\<lambda>i j. 0))" by simp
next
  fix i j assume "i < n" "j < n"
  then show "mat_pow Z (Suc m) ! i ! j = mk_mat n (\<lambda>i j. 0) ! i ! j"
    using assms by (simp add: mat_mul_def is_mat_def)
qed

lemma expm_zero:
  assumes "is_mat n Z" "\<And>i j. i < n \<Longrightarrow> j < n \<Longrightarrow> Z ! i ! j = 0"
  shows "expm Z = cidentity n"
proof (rule mat_eqI [where n = n])
  show "is_mat n (expm Z)" using assms(1) by (simp add: expm_def is_mat_def)
  show "is_mat n (cidentity n)" by (simp add: cidentity_def)
next
  fix i j assume ij: "i < n" "j < n"
  have len: "length Z = n" using assms(1) by (simp add: is_mat_def)
  have tm: "mat_pow Z m ! i ! j /\<^sub>R fact m = (if m = 0 then cidentity n ! i ! j else 0)" for m
  proof (cases m)
    case 0
    then show ?thesis by (simp add: len)
  next
    case (Suc m')
    then show ?thesis using ij by (simp only: mat_pow_zero_Suc [OF assms]) simp
  qed
  have "(\<Sum>m. mat_pow Z m ! i ! j /\<^sub>R fact m) = (\<Sum>m. if m = 0 then cidentity n ! i ! j else 0)"
    by (simp only: tm)
  also have "\<dots> = cidentity n ! i ! j"
    using sums_single [of 0 "\<lambda>m. cidentity n ! i ! j"] by (simp add: sums_iff)
  finally show "expm Z ! i ! j = cidentity n ! i ! j"
    using ij by (simp add: expm_def len)
qed

lemma U_fd_zero_time:
  assumes "is_mat n A"
  shows "U_fd k 0 A = cidentity n"
  unfolding U_fd_def
  by (rule expm_zero) (use assms in \<open>simp_all add: map_map_nth [where n = n]\<close>)

lemma mat_vec_identity:
  assumes "length st = n"
  shows "mat_vec (cidentity n) st = st"
proof (rule nth_equalityI)
  show "length (mat_vec (cidentity n) st) = length st"
    using assms by (simp add: mat_vec_def cidentity_def)
next
  fix i assume "i < length (mat_vec (cidentity n) st)"
  then have i: "i < n" by (simp add: mat_vec_def cidentity_def)
  have "(\<Sum>l<n. cidentity n ! i ! l * st ! l) = (\<Sum>l<n. (if i = l then 1 else 0) * st ! l)"
    using i by (intro sum.cong) (simp_all add: cidentity_def)
  also have "\<dots> = st ! i" using i by (simp add: sum_delta_row)
  finally show "mat_vec (cidentity n) st ! i = st ! i"
    using i assms by (simp add: mat_vec_def cidentity_def mk_mat_def)
qed

subsection \<open>The forward transform is inverted by the weighted inverse basis\<close>

lemma cis_eq_one_int:
  assumes "cis x = 1"
  shows "\<exists>j::int. x = of_int j * 2 * pi"
proof -
  from assms have "cos x = 1" by (simp add: complex_eq_iff)
  then show ?thesis by (simp add: cos_one_2pi_int)
qed

lemma unity_root_sum:
  fixes n :: nat and d :: int
  assumes n: "0 < n" and d: "d \<noteq> 0" "\<bar>d\<bar> < int n"
  shows "(\<Sum>k<n. cis (2 * pi * real k * real_of_int d / real n)) = 0"
proof -
  define w where "w = cis (2 * pi * real_of_int d / real n)"
  have w1: "w \<noteq> 1"
  proof
    assume "w = 1"
    then obtain j :: int where j: "2 * pi * real_of_int d / real n = of_int j * 2 * pi"
      unfolding w_def using cis_eq_one_int by blast
    then have "real_of_int d = real_of_int (j * int n)"
      using n by (simp add: field_simps)
    then have dj: "d = j * int n" by (simp only: of_int_eq_iff)
    with d(1) have "j \<noteq> 0" by auto
    then have "1 \<le> \<bar>j\<bar>" by simp
    then have "1 * int n \<le> \<bar>j\<bar> * int n" by (intro mult_right_mono) simp_all
    then have "int n \<le> \<bar>j * int n\<bar>" by (simp add: abs_mult)
    with d(2) dj show False by simp
  qed
  have wn: "w ^ n = 1"
  proof -
    have "w ^ n = cis (2 * pi * real_of_int d)"
      unfolding w_def using n by (simp add: DeMoivre)
    then show ?thesis by simp
  qed
  have "(\<Sum>k<n. cis (2 * pi * real k * real_of_int d / real n)) = (\<Sum>k<n. w ^ k)"
    by (rule sum.cong) (simp_all add: w_def DeMoivre mult_ac)
  also have "\<dots> = (w ^ n - 1) / (w - 1)" using w1 by (rule geometric_sum)
  also have "\<dots> = 0" by (simp add: wn)
  finally show ?thesis .
qed

lemma unity_root_delta:
  fixes n m p :: nat
  assumes "m < n" "p < n"
  shows "(\<Sum>k<n. cis (- (2 * pi * real k * real m / real n)) * cis (2 * pi * real k * real p / real n))
     = (if m = p then of_nat n else 0)"
proof (cases "m = p")
  case True
  then show ?thesis by (simp add: cis_mult)
next
  case False
  have "(\<Sum>k<n. cis (- (2 * pi * real k * real m / real n)) * cis (2 * pi * real k * real p / real n))
      = (\<Sum>k<n. cis (2 * pi * real k * real_of_int (int p - int m) / real n))"
    by (rule sum.cong) (simp_all add: cis_mult field_simps)
  also have "\<dots> = 0"
    by (rule unity_root_sum) (use assms False in auto)
  finally show ?thesis using False by simp
qed

lemma inverse_transform:
  assumes fv: "fft_forward v = Inr fv" and p: "p < length v"
  shows "(\<Sum>k<length v. fv ! k * cis (2 * pi * real k * real p / real (length v)))
     = complex_of_real (v ! p)"
proof -
  define n where "n = length v"
  have n: "0 < n" using p by (cases v) (simp_all add: n_def)
  have fvk: "fv ! k = (\<Sum>m<n. complex_of_real (v ! m) * cis (- (2 * pi * real k * real m / real n))) / of_nat n"
    if "k < n" for k
    using fv that n by (auto simp: fft_forward_def Let_def n_def split: if_splits)
  have "(\<Sum>k<n. fv ! k * cis (2 * pi * real k * real p / real n))
      = (\<Sum>k<n. \<Sum>m<n. complex_of_real (v ! m) / of_nat n
            * (cis (- (2 * pi * real k * real m / real n)) * cis (2 * pi * real k * real p / real n)))"
  proof (rule sum.cong [OF refl])
    fix k assume "k \<in> {..<n}"
    then have k: "k < n" by simp
    show "fv ! k * cis (2 * pi * real k * real p / real n)
      = (\<Sum>m<n. complex_of_real (v ! m) / of_nat n
            * (cis (- (2 * pi * real k * real m / real n)) * cis (2 * pi * real k * real p / real n)))"
      unfolding fvk [OF k] sum_divide_distrib sum_distrib_right
      by (rule sum.cong [OF refl]) simp
  qed
  also have "\<dots> = (\<Sum>m<n. \<Sum>k<n. complex_of_real (v ! m) / of_nat n
            * (cis (- (2 * pi * real k * real m / real n)) * cis (2 * pi * real k * real p / real n)))"
    by (rule sum.swap)
  also have "\<dots> = (\<Sum>m<n. complex_of_real (v ! m) / of_nat n * (if m = p then of_nat n else 0))"
  proof (rule sum.cong [OF refl])
    fix m assume "m \<in> {..<n}"
    then have m: "m < n" by simp
    have pn: "p < n" using p by (simp add: n_def)
    show "(\<Sum>k<n. complex_of_real (v ! m) / of_nat n
            * (cis (- (2 * pi * real k * real m / real n)) * cis (2 * pi * real k * real p / real n)))
        = complex_of_real (v ! m) / of_nat n * (if m = p then of_nat n else 0)"
      unfolding sum_distrib_left [symmetric] unity_root_delta [OF m pn] ..
  qed
  also have "\<dots> = (\<Sum>m<n. if m = p then complex_of_real (v ! m) else 0)"
    using n by (intro sum.cong refl) simp
  also have "\<dots> = complex_of_real (v ! p)"
    using p unfolding n_def by (simp add: sum.delta)
  finally show ?thesis unfolding n_def .
qed

subsection \<open>Reconstruction at time zero\<close>

lemma get_statevector_fd:
  "get_statevector nx [Initialize st, Barrier, Unitary U] = mat_vec U st"
  by (simp add: get_statevector_def)

lemma states_loop_zero_time:
  assumes A: "is_mat (2 ^ nq) A"
    and u: "u0 fld = Inr u" and nq: "0 < nq" "length fld = 2 ^ nq"
    and ok: "\<forall>i\<in>set ixs. i < length fv \<and> fv ! i \<noteq> 0"
  shows "states_loop nq u fv kvs 0 A ixs
     = Inr (map (\<lambda>i. map (\<lambda>x. complex_of_real x * phase_factor (fv ! i)) u) ixs)"
  using ok
proof (induction ixs)
  case Nil
  show ?case by simp
next
  case (Cons i ixs)
  then have i: "i < length fv" "fv ! i \<noteq> 0" by simp_all
  have lu: "length u = 2 ^ nq"
    using u nq(2) by (auto simp: u0_def split: if_splits)
  have rest: "states_loop nq u fv kvs 0 A ixs
     = Inr (map (\<lambda>i. map (\<lambda>x. complex_of_real x * phase_factor (fv ! i)) u) ixs)"
    using Cons by simp
  have qc: "qc_fd nq u (fv ! i) (kvs ! i) 0 A
      = Inr [Initialize (map (\<lambda>x. complex_of_real x * phase_factor (fv ! i)) u), Barrier,
             Unitary (cidentity (2 ^ nq))]"
    using append_operator_ok [OF is_mat_U_fd [OF A], of "kvs ! i" 0]
    by (simp add: qc_fd_def circ_init_prepared(1) [OF u nq i(2)] ebind_def U_fd_zero_time [OF A])
  have "mat_vec (cidentity (2 ^ nq)) (map (\<lambda>x. complex_of_real x * phase_factor (fv ! i)) u)
      = map (\<lambda>x. complex_of_real x * phase_factor (fv ! i)) u"
    by (rule mat_vec_identity) (simp add: lu)
  then show ?case
    using i by (simp add: rest qc ebind_def get_statevector_fd)
qed

lemma v_init_nth:
  "v_init wy shift alpha bzone y = Inr v \<Longrightarrow>
     length v = length y \<and> (\<forall>i<length y. v_init_at wy shift alpha bzone (y ! i) = Inr (v ! i))"
proof (induction y arbitrary: v)
  case Nil
  then show ?case by simp
next
  case (Cons vy y)
  from Cons.prems obtain a vs where a: "v_init_at wy shift alpha bzone vy = Inr a"
    and vs: "v_init wy shift alpha bzone y = Inr vs" and v: "v = a # vs"
    by (auto simp: ebind_def split: sum.splits)
  from Cons.IH [OF vs] a show ?case by (auto simp: v nth_Cons split: nat.splits)
qed

lemma y_axis_mid:
  assumes "even ny" "0 < ny"
  shows "y_axis wy shift ny ! (ny div 2) = - pi * shift"
proof -
  from assms obtain m where m: "ny = 2 * m" "0 < m" by (auto elim: evenE)
  have "y_axis wy shift ny ! (ny div 2)
      = - pi * (wy / 2 + shift) + real m * ((pi * (wy / 2 - shift) - - pi * (wy / 2 + shift)) / real (2 * m))"
    using m by (simp add: y_axis_def linspace_open_def)
  also have "\<dots> = - pi * shift" using m(2) by (simp add: field_simps)
  finally show ?thesis .
qed

lemma v_init_at_mid:
  assumes "bzone \<le> wy / 2"
  shows "v_init_at wy shift alpha bzone (- pi * shift) = Inr (exp (pi * shift))"
proof -
  have "\<not> - pi * shift < - pi * (wy / 2 + shift - bzone)"
  proof
    assume "- pi * shift < - pi * (wy / 2 + shift - bzone)"
    then have "pi * (wy / 2 - bzone) < 0" by (simp add: algebra_simps)
    then have "wy / 2 - bzone < 0" by (simp add: mult_less_0_iff)
    with assms show False by simp
  qed
  moreover have "\<not> - pi * shift > pi * (wy / 2 - shift - bzone)"
  proof
    assume "- pi * shift > pi * (wy / 2 - shift - bzone)"
    then have "pi * (wy / 2 - bzone) < 0" by (simp add: algebra_simps)
    then have "wy / 2 - bzone < 0" by (simp add: mult_less_0_iff)
    with assms show False by simp
  qed
  ultimately show ?thesis by (simp add: v_init_at_def)
qed

lemma phase_mid:
  assumes "even ny" "0 < ny" "wy \<noteq> 0" "i < ny"
  shows "exp (\<i> * complex_of_real (pi * (real_of_int (fft_bin ny i) * (2 / wy)) * (wy / 2) * 2
                 * (real ny / 2 + 0) / real ny))
     = cis (2 * pi * real i * real (ny div 2) / real ny)"
proof -
  from assms obtain m where m: "ny = 2 * m" "0 < m" by (auto elim: evenE)
  have l: "pi * (real_of_int (fft_bin ny i) * (2 / wy)) * (wy / 2) * 2 * (real ny / 2 + 0) / real ny
      = pi * real_of_int (fft_bin ny i)"
    using assms(2,3) by (simp add: field_simps)
  have r: "2 * pi * real i * real (ny div 2) / real ny = pi * real i"
    using m by (simp add: field_simps)
  have "cis (pi * real_of_int (fft_bin ny i)) = cis (pi * real i)"
  proof (cases "2 * i < ny")
    case True
    then show ?thesis by (simp add: fft_bin_def)
  next
    case False
    have "pi * real_of_int (int i - int ny) = pi * real i + - (2 * pi * real m)"
      using m by (simp add: algebra_simps)
    then have "cis (pi * real_of_int (int i - int ny)) = cis (pi * real i) * cis (- (2 * pi * real m))"
      by (simp only: cis_mult)
    also have "cis (- (2 * pi * real m)) = 1"
      using cis_multiple_2pi [of "real m"] by (simp add: cis_cnj [symmetric])
    finally show ?thesis using False by (simp add: fft_bin_def)
  qed
  then show ?thesis unfolding l r by (simp only: cis_conv_exp)
qed

lemma length_y_axis [simp]: "length (y_axis wy shift ny) = ny"
  by (simp add: y_axis_def linspace_open_def)

lemma length_u_init [simp]: "length (u_init k_s k_c (x_grid L nx)) = nx"
  by (simp add: u_init_def x_grid_def linspace_open_def)

text \<open>
  Claim C9. With the noiseless backend and \<open>t = 0\<close> every evolution operator is the
  identity, each evolved state is its prepared state \<open>u0 c\<^sub>i / |c\<^sub>i|\<close>, and the
  recombination sum collapses through the inverse of the forward-normalised transform
  at the auxiliary-axis midpoint to the initial field: the reconstructed solution is
  \<open>u_init\<close>. This holds for a register of \<open>nq > 0\<close> qubits (a grid of \<open>2 ^ nq\<close> points)
  on an even, non-empty auxiliary grid with \<open>wy \<noteq> 0\<close> and \<open>bzone \<le> wy / 2\<close> (the
  midpoint lies in the window), for a nonzero initial field on a domain of nonzero
  length, when all transform coefficients are nonzero (so that every state is
  prepared). With \<open>shift = 0\<close> the profile value and the \<open>exp\<close> factor at the midpoint
  are both 1.
\<close>

theorem zero_time_reconstruction:
  assumes nq: "0 < nq" and nx2: "nx = 2 ^ nq" and L: "L \<noteq> 0"
    and nz: "\<exists>x\<in>set (u_init k_s k_c (x_grid L nx)). x \<noteq> 0"
    and ny: "0 < ny" "even ny" and wy: "wy \<noteq> 0" and bz: "bzone \<le> wy / 2"
    and v: "v_init wy shift alpha bzone (y_axis wy shift ny) = Inr v"
    and fv: "fft_forward v = Inr fv" "list_all (\<lambda>c. c \<noteq> 0) fv"
  shows "results_column k_s k_c L nq C D S wy shift alpha bzone ny 0
           = Inr (u_init k_s k_c (x_grid L nx)) \<and>
         (shift = 0 \<longrightarrow> v ! (ny div 2) = 1 \<and> exp (y_axis wy shift ny ! (ny div 2)) = 1)"
proof -
  have nx: "0 < nx" by (simp add: nx2)
  define ui where "ui = u_init k_s k_c (x_grid L nx)"
  define N where "N = u_init_norm ui"
  define y where "y = y_axis wy shift ny"
  define u where "u = map (\<lambda>x. x / N) ui"
  define kvs where "kvs = map (\<lambda>i. real_of_int (fft_bin ny i) * (2 / wy)) [0..<ny]"
  define states where
    "states = map (\<lambda>i. map (\<lambda>x. complex_of_real x * phase_factor (fv ! i)) u) [0..<ny]"
  have lui: "length ui = nx" by (simp add: ui_def)
  have lu: "length u = nx" by (simp add: u_def lui)
  have ly: "length y = ny" by (simp add: y_def)
  have mid: "ny div 2 < ny" using ny(1) by simp
  \<comment> \<open>the steps of the script, in order\<close>
  have d: "dx L nx = Inr (L / real nx)" "L / real nx \<noteq> 0"
    using nx L by (simp_all add: dx_def)
  have "0 < sum_list (map (\<lambda>x. x\<^sup>2) ui)"
    using nz unfolding ui_def by (rule sum_list_squares_pos)
  then have N0: "N \<noteq> 0" by (simp add: N_def u_init_norm_def)
  then have u0: "u0 ui = Inr u" by (simp add: u0_def u_def N_def)
  from v_init_nth [OF v] have lv: "length v = ny"
    and vat: "\<And>i. i < ny \<Longrightarrow> v_init_at wy shift alpha bzone (y_axis wy shift ny ! i) = Inr (v ! i)"
    by simp_all
  have lfv: "length fv = ny" using fft_forward_length [OF fv(1)] lv by simp
  have fnz: "fv ! i \<noteq> 0" if "i < ny" for i
    using fv(2) that lfv by (simp add: list_all_length)
  have kv: "kv ny wy = Inr kvs"
  proof -
    have "map (\<lambda>x. x * real ny * 2 / wy)
            (map (\<lambda>r. real_of_int r * (1 / real ny)) (map (fft_bin ny) [0..<ny])) = kvs"
      using ny(1) wy by (simp add: comp_def kvs_def)
    then show ?thesis
      using ny(1) wy unfolding kv_def fftfreq_def ebind_def fftfreq_bins [OF ny(1)] by simp
  qed
  have lk: "length kvs = ny" by (simp add: kvs_def)
  obtain A where A: "A_fd nx (L / real nx) C D S = Inr A"
    by (simp add: A_fd_def AC_entries [OF nx d(2)] AD_entries [OF nx d(2)] ebind_def)
  have mA: "is_mat nx A" by (rule A_fd_is_mat [OF A])
  have sts: "states_loop nq u fv kvs 0 A [0..<length kvs] = Inr states"
    unfolding lk states_def
    by (rule states_loop_zero_time [OF mA [unfolded nx2] u0 nq lui [unfolded nx2]])
       (simp add: lfv fnz)
  have ls: "length states = length kvs" by (simp add: states_def lk)
  have lst: "\<forall>st\<in>set states. length st = nx" by (auto simp: states_def lu)
  have rec: "soln_real nx states fv kvs wy ny N y
      = Inr (ReconstructedSolution_spec nx states fv kvs wy ny N y)"
    by (rule soln_real_sum [OF ls _ lst ly ny(1)]) (simp add: lfv lk)
  \<comment> \<open>the auxiliary-axis midpoint\<close>
  have ymid: "y ! (ny div 2) = - pi * shift"
    unfolding y_def by (rule y_axis_mid [OF ny(2,1)])
  have vmid: "v ! (ny div 2) = exp (pi * shift)"
    using vat [OF mid] v_init_at_mid [OF bz, of shift alpha]
    by (simp add: y_axis_mid [OF ny(2,1)])
  \<comment> \<open>the recombination sum is the inverse transform at the midpoint\<close>
  have sum: "(\<Sum>i<length kvs. states ! i ! j * complex_of_real (cmod (fv ! i))
                * exp (\<i> * complex_of_real (pi * (kvs ! i) * (wy / 2) * 2 * (real ny / 2 + 0) / real ny)))
      = complex_of_real (u ! j) * complex_of_real (v ! (ny div 2))" if j: "j < nx" for j
  proof -
    have "(\<Sum>i<ny. states ! i ! j * complex_of_real (cmod (fv ! i))
                * exp (\<i> * complex_of_real (pi * (kvs ! i) * (wy / 2) * 2 * (real ny / 2 + 0) / real ny)))
        = (\<Sum>i<ny. complex_of_real (u ! j) * (fv ! i * cis (2 * pi * real i * real (ny div 2) / real ny)))"
    proof (rule sum.cong [OF refl])
      fix i assume "i \<in> {..<ny}"
      then have i: "i < ny" by simp
      have "phase_factor (fv ! i) * complex_of_real (cmod (fv ! i)) = fv ! i"
        using fnz [OF i] by (simp add: phase_factor_def)
      then have s: "states ! i ! j * complex_of_real (cmod (fv ! i)) = complex_of_real (u ! j) * fv ! i"
        using i j by (simp add: states_def lu mult.assoc)
      have k: "kvs ! i = real_of_int (fft_bin ny i) * (2 / wy)" using i by (simp add: kvs_def)
      show "states ! i ! j * complex_of_real (cmod (fv ! i))
                * exp (\<i> * complex_of_real (pi * (kvs ! i) * (wy / 2) * 2 * (real ny / 2 + 0) / real ny))
          = complex_of_real (u ! j) * (fv ! i * cis (2 * pi * real i * real (ny div 2) / real ny))"
        unfolding s k phase_mid [OF ny(2,1) wy i] by (simp add: mult.assoc)
    qed
    also have "\<dots> = complex_of_real (u ! j)
        * (\<Sum>i<length v. fv ! i * cis (2 * pi * real i * real (ny div 2) / real (length v)))"
      by (simp add: sum_distrib_left lv)
    also have "\<dots> = complex_of_real (u ! j) * complex_of_real (v ! (ny div 2))"
      using inverse_transform [OF fv(1), of "ny div 2"] mid by (simp add: lv)
    finally show ?thesis by (simp add: lk)
  qed
  have "ReconstructedSolution_spec nx states fv kvs wy ny N y = ui"
  proof (rule nth_equalityI)
    show "length (ReconstructedSolution_spec nx states fv kvs wy ny N y) = length ui"
      by (simp add: ReconstructedSolution_spec_def lui)
  next
    fix j assume "j < length (ReconstructedSolution_spec nx states fv kvs wy ny N y)"
    then have j: "j < nx" by (simp add: ReconstructedSolution_spec_def)
    define T where "T = (\<lambda>j. \<Sum>i<length kvs. states ! i ! j * complex_of_real (cmod (fv ! i))
                * exp (\<i> * complex_of_real (pi * (kvs ! i) * (wy / 2) * 2 * (real ny / 2 + 0) / real ny)))"
    have "ReconstructedSolution_spec nx states fv kvs wy ny N y
        = map (\<lambda>j. Re (T j) * N * exp (y ! (ny div 2))) [0..<nx]"
      unfolding ReconstructedSolution_spec_def T_def ..
    then have "ReconstructedSolution_spec nx states fv kvs wy ny N y ! j
        = Re (T j) * N * exp (y ! (ny div 2))"
      using j by simp
    also have "T j = complex_of_real (u ! j) * complex_of_real (v ! (ny div 2))"
      unfolding T_def by (rule sum [OF j])
    finally have "ReconstructedSolution_spec nx states fv kvs wy ny N y ! j
        = Re (complex_of_real (u ! j) * complex_of_real (v ! (ny div 2))) * N * exp (y ! (ny div 2))" .
    also have "\<dots> = u ! j * N * (exp (pi * shift) * exp (- pi * shift))"
      by (simp add: vmid ymid)
    also have "\<dots> = u ! j * N" by (simp add: exp_add [symmetric])
    also have "\<dots> = ui ! j" using j N0 by (simp add: u_def lui)
    finally show "ReconstructedSolution_spec nx states fv kvs wy ny N y ! j = ui ! j" .
  qed
  with rec have "soln_real nx states fv kvs wy ny N y = Inr ui" by simp
  then have "results_column k_s k_c L nq C D S wy shift alpha bzone ny 0 = Inr ui"
    unfolding results_column_def Let_def nx2 [symmetric]
      ui_def [symmetric] y_def [symmetric] N_def [symmetric]
    by (simp add: d(1) u0 v [folded y_def] fv(1) kv A sts ebind_def)
  moreover have "shift = 0 \<longrightarrow> v ! (ny div 2) = 1 \<and> exp (y_axis wy shift ny ! (ny div 2)) = 1"
    using vmid ymid by (auto simp: y_def)
  ultimately show ?thesis unfolding ui_def by simp
qed

lemma v_init_two_points: "v_init 8 0 10 0 (y_axis 8 0 2) = Inr [exp (- (4 * pi)), 1]"
proof -
  have y: "y_axis 8 0 2 = [- (4 * pi), 0]"
    by (simp add: y_axis_def linspace_open_def upt_rec numeral_2_eq_2)
  show ?thesis
    by (simp add: y v_init_at_def bottom_def ebind_def Let_def)
qed

lemma fft_forward_two_points:
  "fft_forward [exp (- (4 * pi)), 1]
     = Inr [complex_of_real ((exp (- (4 * pi)) + 1) / 2), complex_of_real ((exp (- (4 * pi)) - 1) / 2)]"
  by (simp add: fft_forward_def Let_def upt_rec numeral_2_eq_2 lessThan_Suc cis_cnj [symmetric]
      add.commute)

lemma two_point_coefficients_nonzero:
  "list_all (\<lambda>c. c \<noteq> 0)
     [complex_of_real ((exp (- (4 * pi)) + 1) / 2), complex_of_real ((exp (- (4 * pi)) - 1) / 2)]"
proof -
  have "0 < exp (- (4 * pi)) + 1" by (simp add: add_pos_pos)
  then have a: "(exp (- (4 * pi)) + 1) / 2 \<noteq> 0" by simp
  have "exp (- (4 * pi)) \<noteq> 1" by simp
  then have b: "(exp (- (4 * pi)) - 1) / 2 \<noteq> 0" by simp
  from a b show ?thesis by (simp only: list.pred_inject of_real_eq_0_iff simp_thms)
qed

lemma u_init_two_points_nonzero: "\<exists>x\<in>set (u_init [1, 3] [2] (x_grid (2 * pi) 2)). x \<noteq> 0"
proof -
  have "x_grid (2 * pi) 2 = [- pi, 0]"
    by (simp add: x_grid_def linspace_open_def upt_rec numeral_2_eq_2)
  then have "\<exists>a. u_init [1, 3] [2] (x_grid (2 * pi) 2) = [a, 1]"
    by (simp add: u_init_def)
  then obtain a where "u_init [1, 3] [2] (x_grid (2 * pi) 2) = [a, 1]" ..
  then show ?thesis by simp
qed

theorem zero_time_reconstruction_witness:
  "(0::nat) < 1 \<and> (2::nat) = 2 ^ 1 \<and>
   (\<exists>x\<in>set (u_init [1, 3] [2] (x_grid (2 * pi) 2)). x \<noteq> 0) \<and>
   v_init 8 0 10 0 (y_axis 8 0 2) = Inr [exp (- (4 * pi)), 1] \<and>
   fft_forward [exp (- (4 * pi)), 1]
     = Inr [complex_of_real ((exp (- (4 * pi)) + 1) / 2), complex_of_real ((exp (- (4 * pi)) - 1) / 2)] \<and>
   list_all (\<lambda>c. c \<noteq> 0)
     [complex_of_real ((exp (- (4 * pi)) + 1) / 2), complex_of_real ((exp (- (4 * pi)) - 1) / 2)] \<and>
   results_column [1, 3] [2] (2 * pi) 1 4 1 (- (1 / 5)) 8 0 10 0 2 0
     = Inr (u_init [1, 3] [2] (x_grid (2 * pi) 2)) \<and>
   [exp (- (4 * pi)), 1 :: real] ! (2 div 2) = 1 \<and> exp (y_axis 8 0 2 ! (2 div 2)) = 1"
proof -
  have h: "(0::nat) < 1" "(2::nat) = 2 ^ 1" "2 * pi \<noteq> 0" "(0::nat) < 2" "even (2::nat)"
    "(8::real) \<noteq> 0" "(0::real) \<le> 8 / 2"
    by simp_all
  show ?thesis
    using zero_time_reconstruction [OF h(1,2,3) u_init_two_points_nonzero h(4,5,6,7)
        v_init_two_points fft_forward_two_points two_point_coefficients_nonzero,
        of 4 1 "- (1 / 5)"]
      u_init_two_points_nonzero v_init_two_points fft_forward_two_points
      two_point_coefficients_nonzero h(1,2)
    by blast
qed

end
